theory Spec2Isabelle
  imports Main "HOL-Library.Sublist"
begin

section \<open>Python string primitives used by the scripts\<close>

text \<open>
  The six scripts under \<^verbatim>\<open>src/\<close> read one TypeScript file as text, transform the text with
  \<^verbatim>\<open>str.replace\<close>, \<^verbatim>\<open>re.sub\<close>, \<^verbatim>\<open>split\<close>/\<^verbatim>\<open>join\<close> and line loops, and write it back.
  A Python \<^verbatim>\<open>str\<close> is modelled as a \<^typ>\<open>string\<close> whose characters are the code points
  below 256; the text is the decoded text the script sees after \<^verbatim>\<open>read()\<close>.

  \<^item> \<^verbatim>\<open>sub in s\<close> is \<^term>\<open>sublist sub s\<close> (contiguous sublist),
  \<^item> \<^verbatim>\<open>s.startswith(p)\<close> is \<^term>\<open>prefix p s\<close>,
  \<^item> \<^verbatim>\<open>s.endswith(p)\<close> is \<^term>\<open>suffix p s\<close>.
\<close>

definition isspace :: "char \<Rightarrow> bool" where
  \<comment> \<open>\<^verbatim>\<open>str.isspace\<close> on the code points below 256\<close>
  "isspace c = (c \<in> set [CHR 0x09, CHR 0x0A, CHR 0x0B, CHR 0x0C, CHR 0x0D,
                          CHR 0x1C, CHR 0x1D, CHR 0x1E, CHR 0x1F, CHR 0x20,
                          CHR 0x85, CHR 0xA0])"

definition lstrip :: "string \<Rightarrow> string" where
  "lstrip s = dropWhile isspace s"

definition rstrip :: "string \<Rightarrow> string" where
  "rstrip s = rev (dropWhile isspace (rev s))"

definition strip :: "string \<Rightarrow> string" where
  "strip s = lstrip (rstrip s)"

text \<open>
  \<^verbatim>\<open>s.replace(old, new)\<close>: every non-overlapping occurrence of \<open>old\<close>, found from the
  left, is replaced. With an empty \<open>old\<close> Python puts \<open>new\<close> before every character and
  at the end.
\<close>

function replace_scan :: "string \<Rightarrow> string \<Rightarrow> string \<Rightarrow> string" where
  "replace_scan old new [] = []"
| "replace_scan old new (c # cs) =
     (if old \<noteq> [] \<and> prefix old (c # cs)
      then new @ replace_scan old new (drop (length old) (c # cs))
      else c # replace_scan old new cs)"
  by pat_completeness auto
termination
  by (relation "measure (\<lambda>(old, new, s). length s)") auto

definition str_replace :: "string \<Rightarrow> string \<Rightarrow> string \<Rightarrow> string" where
  "str_replace old new s =
     (if old = [] then new @ concat (map (\<lambda>c. c # new) s) else replace_scan old new s)"

text \<open>\<^verbatim>\<open>s.split(sep)\<close> for a one-character separator, and \<^verbatim>\<open>sep.join(lines)\<close>.\<close>

fun str_split :: "char \<Rightarrow> string \<Rightarrow> string list" where
  "str_split sep [] = [[]]"
| "str_split sep (c # cs) =
     (if c = sep then [] # str_split sep cs
      else (let rest = str_split sep cs in (c # hd rest) # tl rest))"

fun str_join :: "string \<Rightarrow> string list \<Rightarrow> string" where
  "str_join sep [] = []"
| "str_join sep [l] = l"
| "str_join sep (l # ls) = l @ sep @ str_join sep ls"

text \<open>
  \<^verbatim>\<open>f.readlines()\<close>: the lines of the text, each keeping its newline; the last one has
  none when the text does not end with a newline. \<^verbatim>\<open>f.writelines(lines)\<close> writes the
  concatenation.
\<close>

fun readlines :: "string \<Rightarrow> string list" where
  "readlines [] = []"
| "readlines (c # cs) =
     (if c = CHR 0x0A then [c] # readlines cs
      else (case readlines cs of [] \<Rightarrow> [[c]] | l # ls \<Rightarrow> (c # l) # ls))"

definition writelines :: "string list \<Rightarrow> string" where
  "writelines lines = concat lines"

section \<open>Constants of the scripts\<close>

definition MARKER :: string where
  \<open>MARKER = ''InfrastructureException''\<close>

definition IMPORT_DECL :: string where
  \<open>IMPORT_DECL = ''import { InfrastructureException } from '@shared/exceptions/shared.exceptions';''\<close>

definition THROW_ERROR :: string where
  \<open>THROW_ERROR = ''throw new Error(''\<close>

definition THROW_INFRA :: string where
  \<open>THROW_INFRA = ''throw new InfrastructureException(''\<close>

definition NL :: string where
  "NL = [CHR 0x0A]"

section \<open>\<^verbatim>\<open>fix_business_repo.py\<close>\<close>

definition business_anchor :: string where
  \<open>business_anchor = ''import { Repository } from 'typeorm';''\<close>

definition business_inject :: "string \<Rightarrow> string" where
  \<comment> \<open>lines 9-13: the import guard\<close>
  "business_inject content =
     (if \<not> sublist MARKER content
      then str_replace business_anchor (business_anchor @ NL @ IMPORT_DECL) content
      else content)"

definition business_rename :: "string \<Rightarrow> string" where
  \<comment> \<open>line 16\<close>
  "business_rename content = str_replace THROW_ERROR THROW_INFRA content"

definition business_line_matches :: "string \<Rightarrow> bool" where
  \<comment> \<open>line 21: the condition of the loop body\<close>
  \<open>business_line_matches line =
     (sublist (THROW_INFRA @ ''`'') line \<and> suffix '');'' (strip line))\<close>

definition business_fix_line :: "string \<Rightarrow> string" where
  \<comment> \<open>lines 21-23\<close>
  \<open>business_fix_line line =
     (if business_line_matches line
      then str_replace '');'' '', "INFRASTRUCTURE_ERROR");'' line
      else line)\<close>

definition business_add_codes :: "string \<Rightarrow> string" where
  \<comment> \<open>lines 19-25: each line is read before it is assigned, so the loop is a map\<close>
  "business_add_codes content =
     str_join NL (map business_fix_line (str_split (CHR 0x0A) content))"

definition fix_business_repo :: "string \<Rightarrow> string" where
  "fix_business_repo content =
     business_add_codes (business_rename (business_inject content))"

section \<open>The regular-expression scripts\<close>

text \<open>
  The patterns of \<^verbatim>\<open>fix_business_sector_repo.py\<close>, \<^verbatim>\<open>fix_calendar_repo.py\<close> and
  \<^verbatim>\<open>fix_role_assignment_repo.py\<close> all have the shape
  \<^verbatim>\<open>throw new Error\(<ws>Q([^Q]+)Q<ws>\);\<close> where \<open>Q\<close> is a quote character and
  \<open><ws>\<close> is either nothing or \<^verbatim>\<open>\s*\<close>. A greedy \<^verbatim>\<open>[^Q]+\<close> followed by \<open>Q\<close> can only
  match the maximal run of characters other than \<open>Q\<close>, and a greedy \<^verbatim>\<open>\s*\<close> followed by
  a non-space character only the maximal run of white space, so one attempt at a position
  decides the match there. \<^term>\<open>match_throw\<close> returns the captured group and the text
  after the match.
\<close>

definition expect :: "string \<Rightarrow> string \<Rightarrow> string option" where
  \<comment> \<open>a literal piece of a pattern: the text after it, when the text starts with it\<close>
  "expect lit s = (if prefix lit s then Some (drop (length lit) s) else None)"

definition skip_ws :: "bool \<Rightarrow> string \<Rightarrow> string" where
  \<comment> \<open>\<^verbatim>\<open>\s*\<close> when \<open>ws\<close> holds, nothing otherwise\<close>
  "skip_ws ws s = (if ws then dropWhile isspace s else s)"

definition match_throw :: "bool \<Rightarrow> char \<Rightarrow> string \<Rightarrow> (string \<times> string) option" where
  \<open>match_throw ws q s =
     (case expect THROW_ERROR s of
        None \<Rightarrow> None
      | Some s1 \<Rightarrow>
     (case expect [q] (skip_ws ws s1) of
        None \<Rightarrow> None
      | Some body \<Rightarrow>
     (let p = takeWhile (\<lambda>c. c \<noteq> q) body
      in if p = [] then None else
     (case expect [q] (dropWhile (\<lambda>c. c \<noteq> q) body) of
        None \<Rightarrow> None
      | Some s4 \<Rightarrow>
     (case expect '');'' (skip_ws ws s4) of
        None \<Rightarrow> None
      | Some rest \<Rightarrow> Some (p, rest))))))\<close>

definition throw_replacement :: "char \<Rightarrow> string \<Rightarrow> string" where
  \<comment> \<open>the replacement templates, \<open>q'\<close> the quote they write around \<^verbatim>\<open>\1\<close>\<close>
  \<open>throw_replacement q' p = THROW_INFRA @ [q'] @ p @ [q'] @ '', "INFRASTRUCTURE_ERROR");''\<close>

lemma expect_Some: "expect lit s = Some r \<longleftrightarrow> s = lit @ r"
  unfolding expect_def by (auto simp: prefix_def)

lemma skip_ws_decomp:
  "\<exists>w. s = w @ skip_ws ws s \<and> (if ws then (\<forall>c \<in> set w. isspace c) else w = [])"
proof (cases ws)
  case True
  have "s = takeWhile isspace s @ skip_ws ws s"
    using True unfolding skip_ws_def by simp
  moreover have "\<forall>c \<in> set (takeWhile isspace s). isspace c"
    by (auto dest: set_takeWhileD)
  ultimately show ?thesis using True by metis
next
  case False
  then show ?thesis unfolding skip_ws_def by simp
qed

lemma match_throw_sound:
  assumes "match_throw ws q s = Some (p, rest)"
  shows "\<exists>w1 w2. s = THROW_ERROR @ w1 @ [q] @ p @ [q] @ w2 @ '');'' @ rest
           \<and> p \<noteq> [] \<and> q \<notin> set p
           \<and> (if ws then (\<forall>c \<in> set (w1 @ w2). isspace c) else w1 = [] \<and> w2 = [])"
proof -
  from assms obtain s1 body s4 where
    s: "s = THROW_ERROR @ s1" and
    s1: "skip_ws ws s1 = [q] @ body" and
    p: "p = takeWhile (\<lambda>c. c \<noteq> q) body" and pne: "p \<noteq> []" and
    s3: "dropWhile (\<lambda>c. c \<noteq> q) body = [q] @ s4" and
    s4: "skip_ws ws s4 = '');'' @ rest"
    unfolding match_throw_def Let_def
    by (auto split: option.splits if_splits simp: expect_Some)
  obtain w1 where w1: "s1 = w1 @ skip_ws ws s1"
    "if ws then (\<forall>c \<in> set w1. isspace c) else w1 = []"
    using skip_ws_decomp [of s1 ws] by blast
  obtain w2 where w2: "s4 = w2 @ skip_ws ws s4"
    "if ws then (\<forall>c \<in> set w2. isspace c) else w2 = []"
    using skip_ws_decomp [of s4 ws] by blast
  have body: "body = p @ [q] @ s4"
    using takeWhile_dropWhile_id [of "\<lambda>c. c \<noteq> q" body] s3 p by simp
  have qp: "q \<notin> set p"
    unfolding p by (auto dest: set_takeWhileD)
  have "s = THROW_ERROR @ w1 @ [q] @ p @ [q] @ w2 @ '');'' @ rest"
    using s w1(1) s1 body w2(1) s4 by simp
  moreover have "if ws then (\<forall>c \<in> set (w1 @ w2). isspace c) else w1 = [] \<and> w2 = []"
    using w1(2) w2(2) by (auto split: if_splits)
  ultimately show ?thesis using pne qp by blast
qed

lemma match_throw_shorter:
  "match_throw ws q s = Some (p, rest) \<Longrightarrow> length rest < length s"
  by (drule match_throw_sound) auto

function re_sub_throw :: "bool \<Rightarrow> char \<Rightarrow> char \<Rightarrow> string \<Rightarrow> string" where
  "re_sub_throw ws q q' [] = []"
| "re_sub_throw ws q q' (c # cs) =
     (case match_throw ws q (c # cs) of
        Some (p, rest) \<Rightarrow> throw_replacement q' p @ re_sub_throw ws q q' rest
      | None \<Rightarrow> c # re_sub_throw ws q q' cs)"
  by pat_completeness auto
termination
  by (relation "measure (\<lambda>(ws, q, q', s). length s)")
     (auto dest: match_throw_shorter)

definition apply_patterns :: "(bool \<times> char \<times> char) list \<Rightarrow> string \<Rightarrow> string" where
  \<comment> \<open>\<^verbatim>\<open>for pattern, replacement in patterns: content = re.sub(...)\<close>\<close>
  "apply_patterns patterns content =
     fold (\<lambda>(ws, q, q') text. re_sub_throw ws q q' text) patterns content"

subsection \<open>\<^verbatim>\<open>fix_business_sector_repo.py\<close>\<close>

fun insert_after_first_import :: "string list \<Rightarrow> string list" where
  \<comment> \<open>lines 12-15: the loop stops at the first line that starts with \<^verbatim>\<open>import \<close>\<close>
  \<open>insert_after_first_import [] = []\<close>
| \<open>insert_after_first_import (line # lines) =
     (if prefix ''import '' line then line # IMPORT_DECL # lines
      else line # insert_after_first_import lines)\<close>

definition sector_inject :: "string \<Rightarrow> string" where
  \<comment> \<open>lines 9-16\<close>
  "sector_inject content =
     (if \<not> sublist MARKER content
      then str_join NL (insert_after_first_import (str_split (CHR 0x0A) content))
      else content)"

definition sector_patterns :: "(bool \<times> char \<times> char) list" where
  \<comment> \<open>lines 19-23: the single-quote pattern writes double quotes\<close>
  "sector_patterns =
     [(False, CHR 0x27, CHR 0x22), (False, CHR 0x22, CHR 0x22), (False, CHR 0x60, CHR 0x60)]"

definition fix_business_sector_repo :: "string \<Rightarrow> string" where
  "fix_business_sector_repo content = apply_patterns sector_patterns (sector_inject content)"

subsection \<open>\<^verbatim>\<open>fix_calendar_repo.py\<close> and \<^verbatim>\<open>fix_role_assignment_repo.py\<close>\<close>

text \<open>
  Both insert the import with \<^verbatim>\<open>re.sub(import_pattern, import_replacement, content)\<close>.
  The pattern has no regular-expression operator (a brace that opens no repetition count
  is a literal) and the replacement no backslash, so this is \<^verbatim>\<open>str.replace\<close>.
\<close>

definition calendar_anchor :: string where
  \<open>calendar_anchor = ''import { Repository, QueryRunner, Brackets } from 'typeorm';''\<close>

definition calendar_inject :: "string \<Rightarrow> string" where
  "calendar_inject content =
     (if \<not> sublist MARKER content
      then str_replace calendar_anchor (calendar_anchor @ NL @ IMPORT_DECL) content
      else content)"

definition calendar_patterns :: "(bool \<times> char \<times> char) list" where
  "calendar_patterns =
     [(False, CHR 0x27, CHR 0x22), (False, CHR 0x22, CHR 0x22), (False, CHR 0x60, CHR 0x60),
      (True, CHR 0x60, CHR 0x60)]"

definition fix_calendar_repo :: "string \<Rightarrow> string" where
  "fix_calendar_repo content = apply_patterns calendar_patterns (calendar_inject content)"

definition role_assignment_inject :: "string \<Rightarrow> string" where
  "role_assignment_inject content =
     (if \<not> sublist MARKER content
      then str_replace business_anchor (business_anchor @ NL @ IMPORT_DECL) content
      else content)"

definition fix_role_assignment_repo :: "string \<Rightarrow> string" where
  "fix_role_assignment_repo content =
     apply_patterns sector_patterns (role_assignment_inject content)"

section \<open>\<^verbatim>\<open>fix_rbac_context_repo.py\<close>\<close>






section \<open>\<^verbatim>\<open>quick_fix_business.py\<close>\<close>

definition CODE_AND_CLOSE :: string where
  \<comment> \<open>the text assigned to the closing line: two lines in one list element\<close>
  \<open>CODE_AND_CLOSE = ''        "INFRASTRUCTURE_ERROR"\<newline>      );\<newline>''\<close>

definition quick_fix_closing :: "string \<Rightarrow> string \<Rightarrow> string" where
  \<comment> \<open>lines 10-25: the new value of \<^verbatim>\<open>lines[i+2]\<close>, given \<^verbatim>\<open>lines[i+1]\<close> and its old value\<close>
  \<open>quick_fix_closing msg closing =
     (if sublist ''Failed to find business by id:'' msg then CODE_AND_CLOSE
      else if sublist ''Failed to find business by name:'' msg then CODE_AND_CLOSE
      else if sublist ''Failed to find businesses by sector:'' msg then CODE_AND_CLOSE
      else if sublist ''Failed to search businesses:'' msg then CODE_AND_CLOSE
      else if sublist ''Failed to save business:'' msg then CODE_AND_CLOSE
      else if sublist ''Failed to delete business:'' msg then CODE_AND_CLOSE
      else if sublist ''Failed to check business name existence:'' msg then CODE_AND_CLOSE
      else if sublist ''Failed to get business statistics:'' msg then CODE_AND_CLOSE
      else closing)\<close>

definition quick_fix_comma :: "string \<Rightarrow> string" where
  \<comment> \<open>lines 28-29: the new value of \<^verbatim>\<open>lines[i+1]\<close>\<close>
  \<open>quick_fix_comma msg =
     (if \<not> suffix '','' (rstrip msg) then rstrip msg @ '',\<newline>'' else msg)\<close>

definition quick_fix_step :: "nat \<Rightarrow> string list \<Rightarrow> string list" where
  \<comment> \<open>the loop body at index \<open>i\<close>, on the list as the earlier iterations left it\<close>
  \<open>quick_fix_step i lines =
     (if sublist THROW_INFRA (lines ! i) \<and> i + 2 < length lines
         \<and> strip (lines ! (i + 2)) = '');''
      then (let lines1 = lines[i + 2 := quick_fix_closing (lines ! (i + 1)) (lines ! (i + 2))]
            in lines1[i + 1 := quick_fix_comma (lines1 ! (i + 1))])
      else lines)\<close>

definition quick_fix_lines :: "string list \<Rightarrow> string list" where
  \<comment> \<open>lines 8-29: \<^verbatim>\<open>enumerate\<close> runs over the indices of the list, whose length is fixed\<close>
  "quick_fix_lines lines = fold quick_fix_step [0..<length lines] lines"

definition quick_fix_business :: "string \<Rightarrow> string" where
  "quick_fix_business content = writelines (quick_fix_lines (readlines content))"

section \<open>Reading and writing the file\<close>

text \<open>
  Every script opens its file for reading (a missing file raises), transforms the text
  and opens the file for writing. The state records the files and the log of the writes.
\<close>

datatype error = FileNotFoundError

record fs =
  files :: "string \<rightharpoonup> string"
  writes :: "(string \<times> string) list"

definition run_script :: "string \<Rightarrow> (string \<Rightarrow> string) \<Rightarrow> fs \<Rightarrow> error + fs" where
  "run_script filepath transform st =
     (case files st filepath of
        None \<Rightarrow> Inl FileNotFoundError
      | Some content \<Rightarrow>
          Inr (st\<lparr>files := (files st)(filepath \<mapsto> transform content),
                  writes := writes st @ [(filepath, transform content)]\<rparr>))"

definition business_filepath :: string where
  \<open>business_filepath =
     ''src/infrastructure/database/sql/postgresql/repositories/typeorm-business.repository.ts''\<close>




definition main_quick_fix_business :: "fs \<Rightarrow> error + fs" where
  "main_quick_fix_business = run_script business_filepath quick_fix_business"

section \<open>Vocabulary of the properties\<close>

text \<open>
  The number of positions of a text at which \<open>sub\<close> starts; "the output contains the
  declaration exactly once" is \<open>occurrences IMPORT_DECL out = 1\<close>.
\<close>

fun occurrences :: "string \<Rightarrow> string \<Rightarrow> nat" where
  "occurrences sub [] = (if sub = [] then 1 else 0)"
| "occurrences sub (c # cs) = (if prefix sub (c # cs) then 1 else 0) + occurrences sub cs"

text \<open>
  \<open>apart u v\<close>: \<open>v\<close> starts at no position of \<open>u\<close>, not even running off its end.
  When it holds, putting \<open>u\<close> in front of a text neither adds nor removes an occurrence
  of \<open>v\<close>.
\<close>

fun apart :: "string \<Rightarrow> string \<Rightarrow> bool" where
  "apart [] v = True"
| "apart (c # u) v = (\<not> prefix (c # u) v \<and> \<not> prefix v (c # u) \<and> apart u v)"

text \<open>The number of replacements \<^term>\<open>replace_scan\<close> makes.\<close>

function replace_count :: "string \<Rightarrow> string \<Rightarrow> nat" where
  "replace_count old [] = 0"
| "replace_count old (c # cs) =
     (if old \<noteq> [] \<and> prefix old (c # cs)
      then Suc (replace_count old (drop (length old) (c # cs)))
      else replace_count old cs)"
  by pat_completeness auto
termination
  by (relation "measure (\<lambda>(old, s). length s)") auto

text \<open>
  The condition of the loop of \<^verbatim>\<open>quick_fix_business.py\<close> at index \<open>i\<close>: line \<open>i\<close> opens
  a statement and line \<open>i + 2\<close>, stripped, closes it.
\<close>

definition quick_fix_fires :: "nat \<Rightarrow> string list \<Rightarrow> bool" where
  \<open>quick_fix_fires i lines =
     (sublist THROW_INFRA (lines ! i) \<and> i + 2 < length lines
      \<and> strip (lines ! (i + 2)) = '');'')\<close>

text \<open>The eight message substrings the multi-line fixer tests, in its order.\<close>

definition quick_fix_messages :: "string list" where
  \<open>quick_fix_messages =
     [''Failed to find business by id:'', ''Failed to find business by name:'',
      ''Failed to find businesses by sector:'', ''Failed to search businesses:'',
      ''Failed to save business:'', ''Failed to delete business:'',
      ''Failed to check business name existence:'', ''Failed to get business statistics:'']\<close>

text \<open>The number of commas of a text.\<close>

definition commas :: "string \<Rightarrow> nat" where
  "commas s = length (filter (\<lambda>c. c = CHR '','') s)"

section \<open>The file is always written back\<close>

lemma run_script_Some:
  "files st filepath = Some content \<Longrightarrow>
   run_script filepath transform st =
     Inr (st\<lparr>files := (files st)(filepath \<mapsto> transform content),
             writes := writes st @ [(filepath, transform content)]\<rparr>)"
  by (simp add: run_script_def)





section \<open>The scenario of the save error\<close>

text \<open>
  C5, as stated, fails: on a file made of the anchor line and the scenario's line, the
  business fixer renames the constructor and inserts the import once, but appends no code,
  since the message is not a template literal; no script writes the code
  \<^verbatim>\<open>BUSINESS_SAVE_ERROR\<close>.
\<close>

theorem C5_counterexample:
  \<open>fix_business_repo
     (business_anchor @ NL @ ''throw new Error('Failed to save business: ' + err);'')
   \<noteq> business_anchor @ NL @ IMPORT_DECL @ NL @
       ''throw new InfrastructureException('Failed to save business: ' + err, "BUSINESS_SAVE_ERROR");''
   \<and> \<not> sublist ''BUSINESS_SAVE_ERROR''
        (fix_business_repo
          (business_anchor @ NL @ ''throw new Error('Failed to save business: ' + err);''))\<close>
  by code_simp

text \<open>
  C5, amended: the business fixer turns the scenario's line into
  \<^verbatim>\<open>throw new InfrastructureException('Failed to save business: ' + err);\<close> with no code
  argument, and the import line occurs exactly once in the output; the regular-expression
  fixers do not match the line (the quoted message is followed by \<^verbatim>\<open> + err\<close>) and leave it
  as it is; the multi-line fixer gives the three-line form of the statement the code
  \<^verbatim>\<open>"INFRASTRUCTURE_ERROR"\<close>.
\<close>

theorem C5_scenario_as_coded:
  \<open>fix_business_repo
     (business_anchor @ NL @ ''throw new Error('Failed to save business: ' + err);'')
   = business_anchor @ NL @ IMPORT_DECL @ NL @
       ''throw new InfrastructureException('Failed to save business: ' + err);''
   \<and> occurrences IMPORT_DECL
        (fix_business_repo
          (business_anchor @ NL @ ''throw new Error('Failed to save business: ' + err);'')) = 1
   \<and> fix_business_sector_repo ''throw new Error('Failed to save business: ' + err);''
       = ''throw new Error('Failed to save business: ' + err);''
   \<and> quick_fix_business
        (''      throw new InfrastructureException('' @ NL @
         ''        `Failed to save business: ${err}`'' @ NL @
         ''      );'' @ NL)
       = ''      throw new InfrastructureException('' @ NL @
         ''        `Failed to save business: ${err}`,'' @ NL @
         ''        "INFRASTRUCTURE_ERROR"'' @ NL @
         ''      );'' @ NL\<close>
  by code_simp

section \<open>Occurrences under \<^verbatim>\<open>str.replace\<close>\<close>

lemma prefix_append_cases:
  "prefix d (y @ t) \<Longrightarrow> prefix d y \<or> prefix y d"
  by (auto simp: prefix_append)

lemma occurrences_zero_iff: "occurrences d s = 0 \<longleftrightarrow> \<not> sublist d s"
  by (induction s) (auto simp: sublist_Cons_right)

lemma occurrences_skip:
  "apart y d \<Longrightarrow> occurrences d (y @ t) = occurrences d t"
proof (induction y)
  case Nil
  then show ?case by simp
next
  case (Cons c y)
  then have "\<not> prefix d ((c # y) @ t)"
    using prefix_append_cases [of d "c # y" t] by auto
  with Cons show ?case by simp
qed

lemma occurrences_self:
  assumes "d \<noteq> []" "apart (tl d) d"
  shows "occurrences d (d @ t) = Suc (occurrences d t)"
proof -
  obtain e d' where d: "d = e # d'" using assms(1) by (cases d) auto
  have "occurrences d (d @ t) = 1 + occurrences d (d' @ t)"
    by (simp add: d)
  also have "occurrences d (d' @ t) = occurrences d t"
    using assms(2) occurrences_skip [of d' d t] by (simp add: d)
  finally show ?thesis by simp
qed

lemma prefix_replace_scan:
  "apart x old \<Longrightarrow> apart x new \<Longrightarrow>
   prefix x (replace_scan old new s) \<longleftrightarrow> prefix x s"
proof (induction old new s arbitrary: x rule: replace_scan.induct)
  case (1 old new)
  then show ?case by simp
next
  case (2 old new c cs)
  show ?case
  proof (cases x)
    case Nil
    then show ?thesis by simp
  next
    case (Cons e x')
    with "2.prems" have ax: "\<not> prefix x old" "\<not> prefix old x" "\<not> prefix x new" "\<not> prefix new x"
      "apart x' old" "apart x' new"
      by auto
    show ?thesis
    proof (cases "old \<noteq> [] \<and> prefix old (c # cs)")
      case True
      then obtain r where r: "c # cs = old @ r" by (auto simp: prefix_def)
      have "\<not> prefix x (new @ replace_scan old new (drop (length old) (c # cs)))"
        using ax prefix_append_cases by blast
      moreover have "\<not> prefix x (c # cs)"
        unfolding r using ax prefix_append_cases by blast
      ultimately show ?thesis using True by simp
    next
      case False
      then show ?thesis
        using "2.IH"(2) [OF False ax(5) ax(6)] Cons by auto
    qed
  qed
qed

lemma occurrences_replace_scan:
  "apart (tl d) old \<Longrightarrow> apart (tl d) new \<Longrightarrow>
   (\<And>t. occurrences d (new @ t) = a + occurrences d t) \<Longrightarrow>
   (\<And>t. occurrences d (old @ t) = b + occurrences d t) \<Longrightarrow>
   occurrences d (replace_scan old new s) + b * replace_count old s
     = occurrences d s + a * replace_count old s"
proof (induction old new s rule: replace_scan.induct)
  case (1 old new)
  then show ?case by simp
next
  case (2 old new c cs)
  show ?case
  proof (cases "old \<noteq> [] \<and> prefix old (c # cs)")
    case True
    then obtain r where r: "c # cs = old @ r" by (auto simp: prefix_def)
    then have dr: "drop (length old) (c # cs) = r" by simp
    have ih: "occurrences d (replace_scan old new r) + b * replace_count old r
              = occurrences d r + a * replace_count old r"
      using "2.IH"(1) [OF True "2.prems"] dr by simp
    have "occurrences d (replace_scan old new (c # cs)) = a + occurrences d (replace_scan old new r)"
      using True dr "2.prems"(3) by simp
    moreover have "occurrences d (c # cs) = b + occurrences d r"
      unfolding r using "2.prems"(4) by simp
    moreover have "replace_count old (c # cs) = Suc (replace_count old r)"
      using True dr by simp
    ultimately show ?thesis using ih by simp
  next
    case False
    have ih: "occurrences d (replace_scan old new cs) + b * replace_count old cs
              = occurrences d cs + a * replace_count old cs"
      using "2.IH"(2) [OF False "2.prems"] by simp
    have "prefix d (c # replace_scan old new cs) \<longleftrightarrow> prefix d (c # cs)"
    proof (cases d)
      case Nil
      then show ?thesis by simp
    next
      case (Cons e d')
      then show ?thesis
        using prefix_replace_scan [of d' old new cs] "2.prems"(1,2) by simp
    qed
    moreover have "replace_scan old new (c # cs) = c # replace_scan old new cs"
      using False by auto
    moreover have "replace_count old (c # cs) = replace_count old cs"
      using False by auto
    ultimately show ?thesis using ih by simp
  qed
qed

lemma replace_count_occurrences:
  "old \<noteq> [] \<Longrightarrow> apart (tl old) old \<Longrightarrow> replace_count old s = occurrences old s"
proof (induction old s rule: replace_count.induct)
  case (1 old)
  then show ?case by simp
next
  case (2 old c cs)
  show ?case
  proof (cases "prefix old (c # cs)")
    case True
    then obtain r where r: "c # cs = old @ r" by (auto simp: prefix_def)
    then have dr: "drop (length old) (c # cs) = r" by simp
    have "replace_count old (c # cs) = Suc (occurrences old r)"
      using True "2.prems" "2.IH"(1) dr by simp
    also have "\<dots> = occurrences old (c # cs)"
      unfolding r using occurrences_self [OF "2.prems"] by simp
    finally show ?thesis .
  next
    case False
    then show ?thesis using "2.prems" "2.IH"(2) by simp
  qed
qed

lemma replace_scan_id:
  "\<not> sublist old s \<Longrightarrow> replace_scan old new s = s"
  by (induction old new s rule: replace_scan.induct) (auto simp: sublist_Cons_right)

lemma occurrences_replace_scan_same:
  assumes "apart (tl d) old" "apart (tl d) new" "apart new d" "apart old d"
  shows "occurrences d (replace_scan old new s) = occurrences d s"
  using occurrences_replace_scan [of d old new 0 0 s] assms
  by (simp add: occurrences_skip)


section \<open>Lines\<close>

lemma str_split_nonempty: "str_split c s \<noteq> []"
  by (induction s) (auto simp: Let_def)

lemma str_join_Cons:
  "str_join sep (l # ls) = (if ls = [] then l else l @ sep @ str_join sep ls)"
  by (cases ls) auto

lemma str_join_split: "str_join [c] (str_split c s) = s"
proof (induction s)
  case Nil
  then show ?case by simp
next
  case (Cons x xs)
  obtain h t where ht: "str_split c xs = h # t"
    using str_split_nonempty [of c xs] by (cases "str_split c xs") auto
  with Cons show ?case
    by (auto simp: Let_def str_join_Cons str_split_nonempty)
qed


lemma occurrences_line_break:
  assumes "d \<noteq> []" "c \<notin> set d"
  shows "occurrences d (l @ c # r) = occurrences d l + occurrences d r"
proof (induction l)
  case Nil
  have "\<not> prefix d (c # r)" using assms by (cases d) auto
  then show ?case using assms by simp
next
  case (Cons x l)
  have "prefix d ((x # l) @ c # r) \<longleftrightarrow> prefix d (x # l)"
  proof
    assume "prefix d ((x # l) @ c # r)"
    then consider "prefix d (x # l)" | us where "d = (x # l) @ us" "prefix us (c # r)"
      using prefix_append [of d "x # l" "c # r"] by blast
    then show "prefix d (x # l)"
    proof cases
      case 1
      then show ?thesis .
    next
      case 2
      then have "us = []" using assms(2) by (cases us) auto
      with 2 show ?thesis by simp
    qed
  next
    assume "prefix d (x # l)"
    then show "prefix d ((x # l) @ c # r)"
      using prefix_prefix [of d "x # l" "c # r"] by simp
  qed
  with Cons show ?case by simp
qed

lemma occurrences_str_join:
  assumes "d \<noteq> []" "c \<notin> set d"
  shows "occurrences d (str_join [c] ls) = sum_list (map (occurrences d) ls)"
proof (induction ls)
  case Nil
  then show ?case using assms by simp
next
  case (Cons l ls)
  then show ?case
    using assms occurrences_line_break [OF assms, of l "str_join [c] ls"]
    by (cases ls) auto
qed

lemma occurrences_map_lines:
  assumes "d \<noteq> []" "c \<notin> set d"
    and "\<And>l. occurrences d (f l) = occurrences d l"
  shows "occurrences d (str_join [c] (map f (str_split c s))) = occurrences d s"
proof -
  have "occurrences d (str_join [c] (map f (str_split c s)))
        = sum_list (map (occurrences d) (map f (str_split c s)))"
    using occurrences_str_join [OF assms(1,2)] by simp
  also have "\<dots> = sum_list (map (occurrences d) (str_split c s))"
    using assms(3) by (simp add: comp_def)
  also have "\<dots> = occurrences d (str_join [c] (str_split c s))"
    using occurrences_str_join [OF assms(1,2)] by simp
  finally show ?thesis by (simp add: str_join_split)
qed

section \<open>The steps of the business fixer\<close>

lemma business_fix_line_occurrences:
  assumes \<open>apart (tl d) '');''\<close> \<open>apart (tl d) '', "INFRASTRUCTURE_ERROR");''\<close>
    \<open>apart '');'' d\<close> \<open>apart '', "INFRASTRUCTURE_ERROR");'' d\<close>
  shows "occurrences d (business_fix_line l) = occurrences d l"
  using assms occurrences_replace_scan_same
  by (simp add: business_fix_line_def str_replace_def)

lemma business_add_codes_occurrences:
  assumes "d \<noteq> []" "CHR 0x0A \<notin> set d"
    \<open>apart (tl d) '');''\<close> \<open>apart (tl d) '', "INFRASTRUCTURE_ERROR");''\<close>
    \<open>apart '');'' d\<close> \<open>apart '', "INFRASTRUCTURE_ERROR");'' d\<close>
  shows "occurrences d (business_add_codes s) = occurrences d s"
  unfolding business_add_codes_def NL_def
  using occurrences_map_lines [OF assms(1,2), of business_fix_line s]
    business_fix_line_occurrences [OF assms(3-6)]
  by simp

lemma business_rename_removes:
  "occurrences THROW_ERROR (business_rename s) = 0"
proof -
  have ne: "THROW_ERROR \<noteq> []" by (simp add: THROW_ERROR_def)
  have a1: "apart (tl THROW_ERROR) THROW_ERROR" by code_simp
  have a2: "apart (tl THROW_ERROR) THROW_INFRA" by code_simp
  have a3: "apart THROW_INFRA THROW_ERROR" by code_simp
  have "occurrences THROW_ERROR (replace_scan THROW_ERROR THROW_INFRA s)
          + 1 * replace_count THROW_ERROR s
        = occurrences THROW_ERROR s + 0 * replace_count THROW_ERROR s"
    by (rule occurrences_replace_scan [OF a1 a2])
       (simp_all add: occurrences_skip [OF a3] occurrences_self [OF ne a1])
  then show ?thesis
    using replace_count_occurrences [OF ne a1, of s] ne
    by (simp add: business_rename_def str_replace_def)
qed

lemma business_rename_occurrences:
  assumes "apart (tl d) THROW_ERROR" "apart (tl d) THROW_INFRA"
    "apart THROW_INFRA d" "apart THROW_ERROR d"
  shows "occurrences d (business_rename s) = occurrences d s"
  using occurrences_replace_scan_same [OF assms]
  by (simp add: business_rename_def str_replace_def THROW_ERROR_def)

lemma fix_business_repo_no_throw_error:
  "occurrences THROW_ERROR (fix_business_repo f) = 0"
proof -
  have "occurrences THROW_ERROR (business_add_codes s) = occurrences THROW_ERROR s" for s
    by (rule business_add_codes_occurrences) code_simp+
  then show ?thesis
    by (simp add: fix_business_repo_def business_rename_removes)
qed


lemma set_replace_scan: "set (replace_scan old new s) \<subseteq> set s \<union> set new"
proof (induction old new s rule: replace_scan.induct)
  case (1 old new)
  then show ?case by simp
next
  case (2 old new c cs)
  show ?case
  proof (cases "old \<noteq> [] \<and> prefix old (c # cs)")
    case True
    have "set (drop (length old) (c # cs)) \<subseteq> set (c # cs)"
      by (rule set_drop_subset)
    with True "2.IH"(1) show ?thesis by auto
  next
    case False
    with "2.IH"(2) show ?thesis by auto
  qed
qed

lemma business_add_codes_id:
  assumes "\<forall>line \<in> set (str_split (CHR 0x0A) s). \<not> business_line_matches line"
  shows "business_add_codes s = s"
proof -
  have "map business_fix_line (str_split (CHR 0x0A) s) = str_split (CHR 0x0A) s"
    using assms by (intro map_idI) (simp add: business_fix_line_def)
  then show ?thesis
    by (simp add: business_add_codes_def NL_def str_join_split)
qed




lemma business_inject_occurrences:
  "occurrences IMPORT_DECL (business_inject f)
     = (if sublist MARKER f then occurrences IMPORT_DECL f
        else occurrences IMPORT_DECL f + occurrences business_anchor f)"
proof -
  have ne: "business_anchor \<noteq> []" "IMPORT_DECL \<noteq> []"
    by (simp_all add: business_anchor_def IMPORT_DECL_def)
  have a1: "apart (tl IMPORT_DECL) business_anchor" by code_simp
  have a2: "apart (tl IMPORT_DECL) (business_anchor @ NL @ IMPORT_DECL)" by code_simp
  have a3: "apart (business_anchor @ NL) IMPORT_DECL" by code_simp
  have a4: "apart (tl IMPORT_DECL) IMPORT_DECL" by code_simp
  have a5: "apart business_anchor IMPORT_DECL" by code_simp
  have a6: "apart (tl business_anchor) business_anchor" by code_simp
  have new: "occurrences IMPORT_DECL ((business_anchor @ NL @ IMPORT_DECL) @ t)
             = 1 + occurrences IMPORT_DECL t" for t
    using occurrences_skip [OF a3, of "IMPORT_DECL @ t"] occurrences_self [OF ne(2) a4, of t]
    by simp
  have "occurrences IMPORT_DECL
          (replace_scan business_anchor (business_anchor @ NL @ IMPORT_DECL) f)
          + 0 * replace_count business_anchor f
        = occurrences IMPORT_DECL f + 1 * replace_count business_anchor f"
    by (rule occurrences_replace_scan [OF a1 a2 new]) (simp add: occurrences_skip [OF a5])
  then show ?thesis
    using replace_count_occurrences [OF ne(1) a6, of f] ne
    by (simp add: business_inject_def str_replace_def)
qed

lemma sublist_MARKER_IMPORT_DECL: "sublist MARKER IMPORT_DECL"
  by code_simp

lemma no_marker_no_decl: "\<not> sublist MARKER f \<Longrightarrow> occurrences IMPORT_DECL f = 0"
  using sublist_MARKER_IMPORT_DECL sublist_order.order_trans
  by (auto simp: occurrences_zero_iff)

lemma fix_business_repo_decl_count:
  "occurrences IMPORT_DECL (fix_business_repo f)
     = (if sublist MARKER f then occurrences IMPORT_DECL f else occurrences business_anchor f)"
proof -
  have "occurrences IMPORT_DECL (business_add_codes s) = occurrences IMPORT_DECL s" for s
    by (rule business_add_codes_occurrences) code_simp+
  moreover have "occurrences IMPORT_DECL (business_rename s) = occurrences IMPORT_DECL s" for s
    by (rule business_rename_occurrences) code_simp+
  ultimately show ?thesis
    by (simp add: fix_business_repo_def business_inject_occurrences no_marker_no_decl)
qed


lemma business_rename_marker:
  "occurrences MARKER (business_rename s) = occurrences MARKER s + occurrences THROW_ERROR s"
proof -
  have ne: "THROW_ERROR \<noteq> []" "MARKER \<noteq> []"
    by (simp_all add: THROW_ERROR_def MARKER_def)
  have split: \<open>THROW_INFRA = ''throw new '' @ MARKER @ ''(''\<close>
    by (simp add: THROW_INFRA_def MARKER_def)
  have a1: "apart (tl MARKER) THROW_ERROR" by code_simp
  have a2: "apart (tl MARKER) THROW_INFRA" by code_simp
  have a3: \<open>apart ''throw new '' MARKER\<close> by code_simp
  have a4: "apart (tl MARKER) MARKER" by code_simp
  have a5: \<open>apart ''('' MARKER\<close> by code_simp
  have a6: "apart THROW_ERROR MARKER" by code_simp
  have a7: "apart (tl THROW_ERROR) THROW_ERROR" by code_simp
  have new: "occurrences MARKER (THROW_INFRA @ t) = 1 + occurrences MARKER t" for t
    unfolding split
    using occurrences_skip [OF a3, of \<open>MARKER @ ''('' @ t\<close>]
      occurrences_self [OF ne(2) a4, of \<open>''('' @ t\<close>]
      occurrences_skip [OF a5, of t]
    by simp
  have "occurrences MARKER (replace_scan THROW_ERROR THROW_INFRA s)
          + 0 * replace_count THROW_ERROR s
        = occurrences MARKER s + 1 * replace_count THROW_ERROR s"
    by (rule occurrences_replace_scan [OF a1 a2 new]) (simp add: occurrences_skip [OF a6])
  then show ?thesis
    using replace_count_occurrences [OF ne(1) a7, of s] ne
    by (simp add: business_rename_def str_replace_def)
qed

lemma business_rename_twice: "business_rename (business_rename s) = business_rename s"
proof -
  have "\<not> sublist THROW_ERROR (business_rename s)"
    using business_rename_removes [of s] by (simp add: occurrences_zero_iff)
  then show ?thesis
    using replace_scan_id [of THROW_ERROR "business_rename s" THROW_INFRA]
    by (simp add: business_rename_def str_replace_def THROW_ERROR_def)
qed

lemma business_inject_after_rename:
  "business_inject (business_rename (business_inject f)) = business_rename (business_inject f)"
proof (cases "sublist MARKER (business_rename (business_inject f))")
  case True
  then show ?thesis by (simp add: business_inject_def)
next
  case False
  let ?X = "business_rename (business_inject f)"
  have ne: "business_anchor \<noteq> []" by (simp add: business_anchor_def)
  have m0: "occurrences MARKER ?X = 0"
    using False by (simp add: occurrences_zero_iff)
  then have "occurrences MARKER (business_inject f) = 0"
    by (simp add: business_rename_marker)
  then have nm: "\<not> sublist MARKER f"
    by (auto simp: business_inject_def occurrences_zero_iff split: if_splits)
  have keepD: "occurrences IMPORT_DECL (business_rename s) = occurrences IMPORT_DECL s" for s
    by (rule business_rename_occurrences) code_simp+
  have keepA: "occurrences business_anchor (business_rename s) = occurrences business_anchor s" for s
    by (rule business_rename_occurrences) code_simp+
  have "occurrences IMPORT_DECL ?X = 0"
    using no_marker_no_decl [OF False] .
  then have "occurrences business_anchor f = 0"
    using nm by (simp add: keepD business_inject_occurrences no_marker_no_decl)
  then have nf: "\<not> sublist business_anchor f"
    by (simp add: occurrences_zero_iff)
  then have inj: "business_inject f = f"
    using nm replace_scan_id [of business_anchor f]
    by (simp add: business_inject_def str_replace_def ne)
  have "occurrences business_anchor ?X = 0"
    using nf by (simp add: inj keepA occurrences_zero_iff)
  then have "\<not> sublist business_anchor ?X"
    by (simp add: occurrences_zero_iff)
  then show ?thesis
    using False replace_scan_id [of business_anchor ?X]
    by (simp add: business_inject_def [of ?X] str_replace_def ne)
qed

lemma fix_business_repo_quiet:
  assumes "\<forall>line \<in> set (str_split (CHR 0x0A) (business_rename (business_inject f))).
             \<not> business_line_matches line"
  shows "fix_business_repo f = business_rename (business_inject f)"
  using business_add_codes_id [OF assms] by (simp add: fix_business_repo_def)

lemma fix_business_repo_twice:
  assumes "\<forall>line \<in> set (str_split (CHR 0x0A) (business_rename (business_inject f))).
             \<not> business_line_matches line"
  shows "fix_business_repo (fix_business_repo f) = fix_business_repo f"
proof -
  let ?X = "business_rename (business_inject f)"
  have X: "fix_business_repo f = ?X" by (rule fix_business_repo_quiet [OF assms])
  have "fix_business_repo ?X = business_add_codes (business_rename (business_inject ?X))"
    by (simp add: fix_business_repo_def)
  also have "\<dots> = business_add_codes ?X"
    by (simp add: business_inject_after_rename business_rename_twice)
  also have "\<dots> = ?X"
    by (rule business_add_codes_id [OF assms])
  finally show ?thesis by (simp add: X)
qed


section \<open>Stripping\<close>

lemma set_dropWhile_rest: "set xs \<subseteq> set (dropWhile P xs) \<union> Collect P"
proof -
  have "set xs = set (takeWhile P xs) \<union> set (dropWhile P xs)"
    by (metis set_append takeWhile_dropWhile_id)
  then show ?thesis by (auto dest: set_takeWhileD)
qed

lemma set_strip: "set s \<subseteq> set (strip s) \<union> Collect isspace"
proof -
  have "set s \<subseteq> set (rstrip s) \<union> Collect isspace"
    using set_dropWhile_rest [of "rev s" isspace] by (simp add: rstrip_def)
  moreover have "set (rstrip s) \<subseteq> set (strip s) \<union> Collect isspace"
    using set_dropWhile_rest [of "rstrip s" isspace] by (simp add: strip_def lstrip_def)
  ultimately show ?thesis by blast
qed

lemma rstrip_decomp: "\<exists>w. s = rstrip s @ w \<and> (\<forall>c \<in> set w. isspace c)"
proof -
  have "rev s = takeWhile isspace (rev s) @ dropWhile isspace (rev s)" by simp
  then have "s = rev (dropWhile isspace (rev s)) @ rev (takeWhile isspace (rev s))"
    by (metis rev_append rev_rev_ident)
  moreover have "\<forall>c \<in> set (rev (takeWhile isspace (rev s))). isspace c"
    by (auto dest: set_takeWhileD)
  ultimately show ?thesis unfolding rstrip_def by metis
qed

lemma rstrip_append_nonspace:
  assumes "\<exists>c \<in> set s. \<not> isspace c"
  shows "rstrip (a @ s) = a @ rstrip s"
  using assms by (auto simp: rstrip_def dropWhile_append)

lemma rstrip_snoc_nonspace: "\<not> isspace c \<Longrightarrow> rstrip (s @ [c]) = s @ [c]"
  by (simp add: rstrip_def)


lemma strip_closing_no_throw:
  assumes \<open>strip l = '');''\<close>
  shows "\<not> sublist THROW_INFRA l"
proof
  assume "sublist THROW_INFRA l"
  then have "set THROW_INFRA \<subseteq> set l" by (rule set_mono_sublist)
  then have "CHR ''t'' \<in> set l" by (auto simp: THROW_INFRA_def)
  with set_strip [of l] assms show False by (auto simp: isspace_def)
qed


lemma sublist_rstrip:
  assumes "sublist u l" "u \<noteq> []" "\<not> isspace (last u)"
  shows "sublist u (rstrip l)"
proof -
  from assms(1) obtain ps ss where l: "l = ps @ u @ ss" by (auto simp: sublist_def)
  have "\<exists>c \<in> set (u @ ss). \<not> isspace c"
    using assms(2,3) last_in_set [of u] by auto
  then have "rstrip l = ps @ rstrip (u @ ss)"
    unfolding l by (rule rstrip_append_nonspace)
  moreover have "\<exists>t. rstrip (u @ ss) = u @ t"
  proof (cases "\<exists>c \<in> set ss. \<not> isspace c")
    case True
    then show ?thesis using rstrip_append_nonspace [of ss u] by auto
  next
    case False
    then have "rstrip (u @ ss) = u"
      using assms(2,3) by (cases u rule: rev_cases) (auto simp: rstrip_def dropWhile_append)
    then show ?thesis by simp
  qed
  ultimately show ?thesis by (auto simp: sublist_def)
qed

lemma sublist_quick_fix_comma:
  "sublist THROW_INFRA (quick_fix_comma l) \<longleftrightarrow> sublist THROW_INFRA l"
proof
  assume "sublist THROW_INFRA l"
  then have "sublist THROW_INFRA (rstrip l)"
    by (rule sublist_rstrip) (simp_all add: THROW_INFRA_def isspace_def)
  then show "sublist THROW_INFRA (quick_fix_comma l)"
    using \<open>sublist THROW_INFRA l\<close> by (auto simp: quick_fix_comma_def sublist_append)
next
  assume a: "sublist THROW_INFRA (quick_fix_comma l)"
  obtain w where w: "l = rstrip l @ w" using rstrip_decomp by blast
  show "sublist THROW_INFRA l"
  proof (cases \<open>suffix '','' (rstrip l)\<close>)
    case True
    with a show ?thesis by (simp add: quick_fix_comma_def)
  next
    case False
    with a have \<open>sublist THROW_INFRA (rstrip l @ '',\<newline>'')\<close>
      by (simp add: quick_fix_comma_def)
    then consider "sublist THROW_INFRA (rstrip l)"
      | \<open>sublist THROW_INFRA '',\<newline>''\<close>
      | xs1 xs2 where "THROW_INFRA = xs1 @ xs2" "suffix xs1 (rstrip l)" \<open>prefix xs2 '',\<newline>''\<close>
      using sublist_append [of THROW_INFRA "rstrip l" \<open>'',\<newline>''\<close>] by blast
    then have "sublist THROW_INFRA (rstrip l)"
    proof cases
      case 1
      then show ?thesis .
    next
      case 2
      then have False by code_simp
      then show ?thesis ..
    next
      case 3
      show ?thesis
      proof (cases xs2 rule: rev_cases)
        case Nil
        with 3 show ?thesis by (auto intro: suffix_imp_sublist)
      next
        case (snoc ys y)
        with 3(1) have "y = CHR ''(''" by (simp add: THROW_INFRA_def)
        moreover from snoc 3(3) have \<open>y \<in> set '',\<newline>''\<close>
          using set_mono_prefix by fastforce
        ultimately have False by simp
        then show ?thesis ..
      qed
    qed
    then show ?thesis
      using w by (metis sublist_appendI sublist_order.order_trans append_Nil)
  qed
qed


section \<open>The loop of the multi-line fixer\<close>

lemma quick_fix_step_length [simp]: "length (quick_fix_step j ls) = length ls"
  by (simp add: quick_fix_step_def Let_def)

lemma quick_fix_step_other:
  "k \<noteq> j + 1 \<Longrightarrow> k \<noteq> j + 2 \<Longrightarrow> quick_fix_step j ls ! k = ls ! k"
  by (simp add: quick_fix_step_def Let_def)

lemma quick_fix_step_quiet:
  "\<not> quick_fix_fires j ls \<Longrightarrow> quick_fix_step j ls = ls"
  by (auto simp: quick_fix_step_def quick_fix_fires_def)

lemma quick_fix_step_fired:
  assumes "quick_fix_fires j ls"
  shows "quick_fix_step j ls ! (j + 1) = quick_fix_comma (ls ! (j + 1))"
    and "quick_fix_step j ls ! (j + 2) = quick_fix_closing (ls ! (j + 1)) (ls ! (j + 2))"
  using assms by (simp_all add: quick_fix_step_def quick_fix_fires_def Let_def)

lemma quick_fix_fold_length [simp]: "length (fold quick_fix_step js ls) = length ls"
  by (induction js arbitrary: ls) auto

lemma quick_fix_fold_other:
  "\<forall>j \<in> set js. k \<noteq> j + 1 \<and> k \<noteq> j + 2 \<Longrightarrow> fold quick_fix_step js ls ! k = ls ! k"
  by (induction js arbitrary: ls) (auto simp: quick_fix_step_other)

lemma quick_fix_step_keeps_throw:
  assumes "sublist THROW_INFRA (ls ! k)"
  shows "sublist THROW_INFRA (quick_fix_step j ls ! k)"
proof (cases "quick_fix_fires j ls")
  case False
  then show ?thesis using assms by (simp add: quick_fix_step_quiet)
next
  case True
  then have c: \<open>strip (ls ! (j + 2)) = '');''\<close> by (simp add: quick_fix_fires_def)
  consider "k = j + 1" | "k = j + 2" | "k \<noteq> j + 1" "k \<noteq> j + 2" by blast
  then show ?thesis
  proof cases
    case 1
    then show ?thesis
      using assms quick_fix_step_fired(1) [OF True] by (simp add: sublist_quick_fix_comma)
  next
    case 2
    then show ?thesis using assms strip_closing_no_throw [OF c] by simp
  next
    case 3
    then show ?thesis using assms by (simp add: quick_fix_step_other)
  qed
qed

lemma quick_fix_fold_keeps_throw:
  "sublist THROW_INFRA (ls ! k) \<Longrightarrow> sublist THROW_INFRA (fold quick_fix_step js ls ! k)"
  by (induction js arbitrary: ls) (auto simp: quick_fix_step_keeps_throw)

lemma quick_fix_lines_split:
  assumes "i < length ls"
  shows "quick_fix_lines ls =
         fold quick_fix_step [Suc i..<length ls]
           (quick_fix_step i (fold quick_fix_step [0..<i] ls))"
proof -
  have "[0..<length ls] = [0..<i] @ [i..<length ls]"
    using assms upt_add_eq_append [of 0 i "length ls - i"] by simp
  then have "[0..<length ls] = [0..<i] @ i # [Suc i..<length ls]"
    using assms by (simp add: upt_conv_Cons)
  then show ?thesis by (simp add: quick_fix_lines_def)
qed

text \<open>The iteration at the first line of a block fires, whatever the earlier ones did.\<close>

lemma quick_fix_block_fires:
  assumes "quick_fix_fires i ls"
  shows "quick_fix_fires i (fold quick_fix_step [0..<i] ls)"
proof -
  have "fold quick_fix_step [0..<i] ls ! (i + 2) = ls ! (i + 2)"
    by (rule quick_fix_fold_other) auto
  moreover have "sublist THROW_INFRA (fold quick_fix_step [0..<i] ls ! i)"
    using assms by (intro quick_fix_fold_keeps_throw) (simp add: quick_fix_fires_def)
  ultimately show ?thesis using assms by (simp add: quick_fix_fires_def)
qed



text \<open>A block whose message line neither closes nor opens a statement.\<close>

lemma quick_fix_before_block:
  assumes "quick_fix_fires i ls" \<open>strip (ls ! (i + 1)) \<noteq> '');''\<close>
  shows "m \<le> i \<Longrightarrow> \<forall>k \<ge> i. fold quick_fix_step [0..<m] ls ! k = ls ! k"
proof (induction m)
  case 0
  then show ?case by simp
next
  case (Suc m)
  let ?F = "fold quick_fix_step [0..<m] ls"
  have ih: "?F ! k = ls ! k" if "i \<le> k" for k
    using Suc that by simp
  have quiet: "\<not> quick_fix_fires m ?F" if "i \<le> m + 2"
  proof -
    from that consider "m + 2 = i" | "m + 2 = i + 1" using Suc.prems by linarith
    then show ?thesis
    proof cases
      case 1
      have "sublist THROW_INFRA (?F ! i)"
        using assms(1) ih [of i] by (simp add: quick_fix_fires_def)
      then show ?thesis
        using strip_closing_no_throw [of "?F ! i"] 1 by (auto simp: quick_fix_fires_def)
    next
      case 2
      then show ?thesis
        using assms(2) ih [of "i + 1"] by (auto simp: quick_fix_fires_def)
    qed
  qed
  have "quick_fix_step m ?F ! k = ?F ! k" if "i \<le> k" for k
  proof (cases "i \<le> m + 2")
    case True
    then show ?thesis using quiet by (simp add: quick_fix_step_quiet)
  next
    case False
    then show ?thesis using that by (simp add: quick_fix_step_other)
  qed
  then show ?case using ih by simp
qed

lemma quick_fix_lines_block:
  assumes f: "quick_fix_fires i ls"
    and m1: \<open>strip (ls ! (i + 1)) \<noteq> '');''\<close>
    and m2: "\<not> sublist THROW_INFRA (ls ! (i + 1))"
  shows "quick_fix_lines ls ! i = ls ! i"
    and "quick_fix_lines ls ! (i + 1) = quick_fix_comma (ls ! (i + 1))"
    and "quick_fix_lines ls ! (i + 2) = quick_fix_closing (ls ! (i + 1)) (ls ! (i + 2))"
proof -
  let ?A = "fold quick_fix_step [0..<i] ls"
  let ?R = "quick_fix_step i ?A"
  have n: "i + 2 < length ls" using f by (simp add: quick_fix_fires_def)
  have A: "?A ! k = ls ! k" if "i \<le> k" for k
    using quick_fix_before_block [OF f m1 le_refl] that by simp
  have fa: "quick_fix_fires i ?A" by (rule quick_fix_block_fires [OF f])
  have R0: "?R ! i = ls ! i"
    using A [of i] by (simp add: quick_fix_step_other)
  have R1: "?R ! (i + 1) = quick_fix_comma (ls ! (i + 1))"
    using quick_fix_step_fired(1) [OF fa] A [of "i + 1"] by simp
  have R2: "?R ! (i + 2) = quick_fix_closing (ls ! (i + 1)) (ls ! (i + 2))"
    using quick_fix_step_fired(2) [OF fa] A [of "i + 1"] A [of "i + 2"] by simp
  have "\<not> quick_fix_fires (Suc i) ?R"
    using R1 m2 by (simp add: quick_fix_fires_def sublist_quick_fix_comma)
  then have q: "quick_fix_step (Suc i) ?R = ?R" by (rule quick_fix_step_quiet)
  have "[Suc i..<length ls] = Suc i # [Suc (Suc i)..<length ls]"
    using n by (simp add: upt_conv_Cons)
  then have fin: "quick_fix_lines ls = fold quick_fix_step [Suc (Suc i)..<length ls] ?R"
    using quick_fix_lines_split [of i ls] n q by simp
  have keep: "quick_fix_lines ls ! k = ?R ! k" if "k \<le> i + 2" for k
    unfolding fin using that by (intro quick_fix_fold_other) auto
  show "quick_fix_lines ls ! i = ls ! i" using keep [of i] R0 by simp
  show "quick_fix_lines ls ! (i + 1) = quick_fix_comma (ls ! (i + 1))"
    using keep [of "i + 1"] R1 by simp
  show "quick_fix_lines ls ! (i + 2) = quick_fix_closing (ls ! (i + 1)) (ls ! (i + 2))"
    using keep [of "i + 2"] R2 by simp
qed


section \<open>The text the multi-line fixer writes\<close>

lemma quick_fix_closing_cases:
  "quick_fix_closing msg closing =
     (if list_ex (\<lambda>m. sublist m msg) quick_fix_messages then CODE_AND_CLOSE else closing)"
  by (simp add: quick_fix_closing_def quick_fix_messages_def)


lemma commas_Nil [simp]: "commas [] = 0"
  by (simp add: commas_def)

lemma commas_append [simp]: "commas (a @ b) = commas a + commas b"
  by (simp add: commas_def)












section \<open>Indentation\<close>

lemma takeWhile_indent:
  "\<forall>x \<in> set a. P x \<Longrightarrow> \<not> P c \<Longrightarrow> takeWhile P (a @ c # r) = a"
  by (induction a) auto

lemma rstrip_Cons_nonspace: "\<not> isspace c \<Longrightarrow> rstrip (c # b) = c # rstrip b"
  by (auto simp: rstrip_def dropWhile_append)

lemma indent_quick_fix_comma:
  assumes "\<exists>c \<in> set l. \<not> isspace c"
  shows "takeWhile isspace (quick_fix_comma l) = takeWhile isspace l"
proof -
  let ?a = "takeWhile isspace l" and ?s = "dropWhile isspace l"
  have l: "l = ?a @ ?s" by simp
  have "?s \<noteq> []" using assms by (auto simp: dropWhile_eq_Nil_conv)
  then obtain c r where s: "?s = c # r" by (cases ?s) auto
  have c: "\<not> isspace c" using hd_dropWhile [of isspace l] s by auto
  have "rstrip l = ?a @ rstrip (c # r)"
    using rstrip_append_nonspace [of "c # r" ?a] c l s by auto
  then have "rstrip l = ?a @ c # rstrip r"
    using c by (simp add: rstrip_Cons_nonspace)
  moreover have a: "\<forall>x \<in> set ?a. isspace x"
    by (auto dest: set_takeWhileD)
  ultimately have \<open>takeWhile isspace (rstrip l @ '',\<newline>'') = ?a\<close>
    using takeWhile_indent [OF a c, of \<open>rstrip r @ '',\<newline>''\<close>] by simp
  then show ?thesis by (simp add: quick_fix_comma_def)
qed

section \<open>The matcher and the substitution\<close>

lemma dropWhile_spaces_stop:
  "\<forall>c \<in> set w. P c \<Longrightarrow> \<not> P x \<Longrightarrow> dropWhile P (w @ x # r) = x # r"
  by (induction w) auto

lemma skip_ws_stop:
  assumes "if ws then (\<forall>c \<in> set w. isspace c) else w = []" "\<not> isspace x"
  shows "skip_ws ws (w @ x # r) = x # r"
  using assms dropWhile_spaces_stop [of w isspace x r]
  by (auto simp: skip_ws_def split: if_splits)

lemma takeWhile_payload:
  "q \<notin> set p \<Longrightarrow> takeWhile (\<lambda>c. c \<noteq> q) (p @ q # r) = p"
  by (induction p) auto

lemma dropWhile_payload:
  "q \<notin> set p \<Longrightarrow> dropWhile (\<lambda>c. c \<noteq> q) (p @ q # r) = q # r"
  by (induction p) auto

lemma expect_append: "expect lit (lit @ r) = Some r"
  by (simp add: expect_def)

lemma match_throw_complete:
  assumes "p \<noteq> []" "q \<notin> set p" "\<not> isspace q"
    and "if ws then (\<forall>c \<in> set (w1 @ w2). isspace c) else w1 = [] \<and> w2 = []"
  shows \<open>match_throw ws q (THROW_ERROR @ w1 @ [q] @ p @ [q] @ w2 @ '');'' @ rest)
         = Some (p, rest)\<close>
proof -
  have w1: "if ws then (\<forall>c \<in> set w1. isspace c) else w1 = []"
    and w2: "if ws then (\<forall>c \<in> set w2. isspace c) else w2 = []"
    using assms(4) by (auto split: if_splits)
  have s1: \<open>skip_ws ws (w1 @ [q] @ p @ [q] @ w2 @ '');'' @ rest)
            = [q] @ p @ [q] @ w2 @ '');'' @ rest\<close>
    using skip_ws_stop [OF w1 assms(3)] by simp
  have "\<not> isspace (CHR '')'')" by (simp add: isspace_def)
  then have s2: \<open>skip_ws ws (w2 @ '');'' @ rest) = '');'' @ rest\<close>
    using skip_ws_stop [OF w2, of \<open>CHR '')''\<close> \<open>CHR '';'' # rest\<close>] by simp
  have t: \<open>takeWhile (\<lambda>c. c \<noteq> q) (p @ [q] @ w2 @ '');'' @ rest) = p\<close>
    using takeWhile_payload [OF assms(2)] by simp
  have d: \<open>dropWhile (\<lambda>c. c \<noteq> q) (p @ [q] @ w2 @ '');'' @ rest) = [q] @ w2 @ '');'' @ rest\<close>
    using dropWhile_payload [OF assms(2)] by simp
  show ?thesis
    unfolding match_throw_def expect_append option.case s1 t d Let_def s2
    using assms(1) by simp
qed

lemma match_throw_prefix: "match_throw ws q s = Some r \<Longrightarrow> prefix THROW_ERROR s"
  by (auto simp: match_throw_def expect_def split: option.splits if_splits)

lemma re_sub_throw_match:
  assumes "match_throw ws q s = Some (p, rest)"
  shows "re_sub_throw ws q q' s = throw_replacement q' p @ re_sub_throw ws q q' rest"
proof -
  from match_throw_prefix [OF assms] obtain c cs where "s = c # cs"
    by (cases s) (auto simp: THROW_ERROR_def)
  with assms show ?thesis by simp
qed

lemma re_sub_throw_no_match:
  "match_throw ws q (c # cs) = None \<Longrightarrow>
   re_sub_throw ws q q' (c # cs) = c # re_sub_throw ws q q' cs"
  by simp






lemma pattern_quotes:
  assumes "(ws, q, q') \<in> set calendar_patterns"
  shows "\<not> isspace q" and "q' = (if q = CHR 0x27 then CHR 0x22 else q)"
  using assms by (auto simp: calendar_patterns_def isspace_def)

lemma sector_patterns_subset: "set sector_patterns \<subseteq> set calendar_patterns"
  by (simp add: sector_patterns_def calendar_patterns_def)

section \<open>The code-appending line of the business fixer\<close>

lemma replace_scan_only_at_end:
  assumes "old \<noteq> []" "\<not> sublist old (body @ butlast old)"
  shows "replace_scan old new (body @ old) = body @ new"
  using assms(2)
proof (induction body)
  case Nil
  obtain c cs where "old = c # cs" using assms(1) by (cases old) auto
  then show ?case by simp
next
  case (Cons c body)
  have np: "\<not> prefix old (c # body @ old)"
  proof
    assume "prefix old (c # body @ old)"
    then have "prefix old (((c # body) @ butlast old) @ [last old])"
      using assms(1) by simp
    then have "old = ((c # body) @ butlast old) @ [last old]
               \<or> prefix old ((c # body) @ butlast old)"
      by (simp only: prefix_snoc)
    moreover have "old \<noteq> ((c # body) @ butlast old) @ [last old]"
    proof
      assume "old = ((c # body) @ butlast old) @ [last old]"
      then have "length old = length (((c # body) @ butlast old) @ [last old])"
        by (rule arg_cong)
      then show False using assms(1) by simp
    qed
    ultimately have "prefix old ((c # body) @ butlast old)" by blast
    then show False using Cons.prems by auto
  qed
  have "\<not> sublist old (body @ butlast old)"
    using Cons.prems by (auto simp: sublist_Cons_right)
  then show ?case using Cons.IH np by simp
qed

lemma suffix_lstrip:
  "\<not> isspace c \<Longrightarrow> suffix (c # r) (dropWhile isspace (x @ c # r))"
  by (auto simp: dropWhile_append intro: suffixI)

lemma strip_keeps_closing: \<open>suffix '');'' (strip (x @ '');''))\<close>
proof -
  have "\<not> isspace (CHR '';'')" "\<not> isspace (CHR '')'')" by (simp_all add: isspace_def)
  then show ?thesis
    using rstrip_snoc_nonspace [of \<open>CHR '';''\<close> \<open>x @ '')''\<close>] suffix_lstrip [of \<open>CHR '')''\<close> \<open>'';''\<close> x]
    by (simp add: strip_def lstrip_def)
qed

lemma business_fix_line_template:
  assumes \<open>\<not> sublist '');'' (a @ THROW_INFRA @ ''`'' @ p @ ''`)'')\<close>
  shows \<open>business_fix_line (a @ THROW_INFRA @ ''`'' @ p @ ''`);'')
         = a @ THROW_INFRA @ ''`'' @ p @ ''`, "INFRASTRUCTURE_ERROR");''\<close>
proof -
  let ?body = \<open>a @ THROW_INFRA @ ''`'' @ p @ ''`''\<close>
  have \<open>sublist (THROW_INFRA @ ''`'') (a @ (THROW_INFRA @ ''`'') @ (p @ ''`);''))\<close>
    by (rule sublist_appendI)
  then have m: \<open>business_line_matches (?body @ '');'')\<close>
    using strip_keeps_closing [of ?body]
    by (simp add: business_line_matches_def)
  have \<open>replace_scan '');'' '', "INFRASTRUCTURE_ERROR");'' (?body @ '');'')
        = ?body @ '', "INFRASTRUCTURE_ERROR");''\<close>
    using assms by (intro replace_scan_only_at_end) simp_all
  then show ?thesis using m by (simp add: business_fix_line_def str_replace_def)
qed

section \<open>Occurrences under the substitution of a pattern\<close>

lemma apart_suffix:
  "apart u v \<Longrightarrow> suffix x u \<Longrightarrow> x \<noteq> [] \<Longrightarrow> \<not> prefix x v \<and> \<not> prefix v x"
proof (induction u)
  case Nil
  then show ?case by simp
next
  case (Cons c u)
  then show ?case by (cases "x = c # u") (auto simp: suffix_Cons)
qed

lemma occurrences_skip_chars:
  assumes "d \<noteq> []" "hd d \<notin> set y"
  shows "occurrences d (y @ t) = occurrences d t"
  using assms(2)
proof (induction y)
  case Nil
  then show ?case by simp
next
  case (Cons c y)
  then have "\<not> prefix d (c # y @ t)" using assms(1) by (cases d) auto
  with Cons show ?case by simp
qed

lemma occurrences_inside:
  assumes "d \<noteq> []" "apart (tl d) y0"
  shows "occurrences d (p @ y0 @ t) = occurrences d p + occurrences d (y0 @ t)"
proof (induction p)
  case Nil
  then show ?case using assms(1) by simp
next
  case (Cons c p)
  have "prefix d ((c # p) @ y0 @ t) \<longleftrightarrow> prefix d (c # p)"
  proof
    assume "prefix d ((c # p) @ y0 @ t)"
    then consider "prefix d (c # p)" | us where "d = (c # p) @ us" "prefix us (y0 @ t)"
      using prefix_append [of d "c # p" "y0 @ t"] by blast
    then show "prefix d (c # p)"
    proof cases
      case 1
      then show ?thesis .
    next
      case 2
      show ?thesis
      proof (cases "us = []")
        case True
        with 2 show ?thesis by simp
      next
        case False
        have "suffix us (tl d)" using 2(1) by (simp add: suffix_def)
        from apart_suffix [OF assms(2) this False] prefix_append_cases [OF 2(2)]
        show ?thesis by blast
      qed
    qed
  next
    assume "prefix d (c # p)"
    then show "prefix d ((c # p) @ y0 @ t)"
      using prefix_prefix [of d "c # p" "y0 @ t"] by simp
  qed
  with Cons show ?case by simp
qed

lemma prefix_re_sub_throw:
  "apart x THROW_ERROR \<Longrightarrow> apart x THROW_INFRA \<Longrightarrow>
   prefix x (re_sub_throw ws q q' s) \<longleftrightarrow> prefix x s"
proof (induction ws q q' s arbitrary: x rule: re_sub_throw.induct)
  case (1 ws q q')
  then show ?case by simp
next
  case (2 ws q q' c cs)
  show ?case
  proof (cases x)
    case Nil
    then show ?thesis by simp
  next
    case (Cons e x')
    with "2.prems" have ax: "\<not> prefix x THROW_ERROR" "\<not> prefix THROW_ERROR x"
      "\<not> prefix x THROW_INFRA" "\<not> prefix THROW_INFRA x"
      "apart x' THROW_ERROR" "apart x' THROW_INFRA"
      by auto
    show ?thesis
    proof (cases "match_throw ws q (c # cs)")
      case None
      then show ?thesis using "2.IH"(1) [OF None ax(5,6)] Cons by simp
    next
      case (Some r)
      obtain p rest where r: "r = (p, rest)" by (cases r)
      from match_throw_prefix [OF Some] obtain t where t: "c # cs = THROW_ERROR @ t"
        by (auto simp: prefix_def)
      have \<open>re_sub_throw ws q q' (c # cs)
            = THROW_INFRA @ ([q'] @ p @ [q'] @ '', "INFRASTRUCTURE_ERROR");''
                @ re_sub_throw ws q q' rest)\<close>
        using Some r by (simp add: throw_replacement_def)
      then have "\<not> prefix x (re_sub_throw ws q q' (c # cs))"
        using ax prefix_append_cases by metis
      moreover have "\<not> prefix x (c # cs)"
        unfolding t using ax prefix_append_cases by blast
      ultimately show ?thesis by simp
    qed
  qed
qed


lemma decl_around_payload:
  assumes "apart h IMPORT_DECL" "CHR ''i'' \<notin> set a" "apart (tl IMPORT_DECL) y0"
    "CHR ''i'' \<notin> set y0" "CHR ''i'' \<notin> set b"
  shows "occurrences IMPORT_DECL (h @ a @ p @ y0 @ b @ t)
         = occurrences IMPORT_DECL p + occurrences IMPORT_DECL t"
proof -
  have ne: "IMPORT_DECL \<noteq> []" and hd: "hd IMPORT_DECL = CHR ''i''"
    by (simp_all add: IMPORT_DECL_def)
  have "occurrences IMPORT_DECL (h @ a @ p @ y0 @ b @ t)
        = occurrences IMPORT_DECL (a @ p @ y0 @ b @ t)"
    using assms(1) by (rule occurrences_skip)
  also have "\<dots> = occurrences IMPORT_DECL (p @ y0 @ b @ t)"
    using assms(2) by (intro occurrences_skip_chars ne) (simp add: hd)
  also have "\<dots> = occurrences IMPORT_DECL p + occurrences IMPORT_DECL (y0 @ b @ t)"
    using ne assms(3) by (rule occurrences_inside)
  also have "occurrences IMPORT_DECL (y0 @ b @ t) = occurrences IMPORT_DECL ((y0 @ b) @ t)"
    by simp
  also have "\<dots> = occurrences IMPORT_DECL t"
    using assms(4,5) by (intro occurrences_skip_chars ne) (simp add: hd)
  finally show ?thesis .
qed

lemma decl_in_replacement:
  assumes "(ws, q, q') \<in> set calendar_patterns"
  shows "occurrences IMPORT_DECL (throw_replacement q' p @ t)
         = occurrences IMPORT_DECL p + occurrences IMPORT_DECL t"
proof -
  have q': "q' = CHR 0x22 \<or> q' = CHR 0x60"
    using assms by (auto simp: calendar_patterns_def)
  have h: "apart THROW_INFRA IMPORT_DECL" by code_simp
  have y: "apart (tl IMPORT_DECL) [q']" using q' by (elim disjE; hypsubst) code_simp+
  have \<open>occurrences IMPORT_DECL
          (THROW_INFRA @ [q'] @ p @ [q'] @ '', "INFRASTRUCTURE_ERROR");'' @ t)
        = occurrences IMPORT_DECL p + occurrences IMPORT_DECL t\<close>
    using q' by (intro decl_around_payload h y) auto
  then show ?thesis by (simp add: throw_replacement_def)
qed

lemma decl_in_statement:
  assumes "(ws, q, q') \<in> set calendar_patterns"
    and "if ws then (\<forall>c \<in> set (w1 @ w2). isspace c) else w1 = [] \<and> w2 = []"
  shows \<open>occurrences IMPORT_DECL (THROW_ERROR @ w1 @ [q] @ p @ [q] @ w2 @ '');'' @ rest)
         = occurrences IMPORT_DECL p + occurrences IMPORT_DECL rest\<close>
proof -
  have h: "apart THROW_ERROR IMPORT_DECL" by code_simp
  have ni: "\<not> isspace (CHR ''i'')" by (simp add: isspace_def)
  have w: "CHR ''i'' \<notin> set w1" "CHR ''i'' \<notin> set w2"
    using assms(2) ni by (auto split: if_splits)
  consider "q = CHR 0x27" "\<not> ws" | "q = CHR 0x22 \<or> q = CHR 0x60"
    using assms(1) by (auto simp: calendar_patterns_def)
  then show ?thesis
  proof cases
    case 1
    then have e: "w1 = []" "w2 = []" using assms(2) by simp_all
    have y: \<open>apart (tl IMPORT_DECL) ([CHR 0x27] @ '');'')\<close> by code_simp
    have \<open>occurrences IMPORT_DECL (THROW_ERROR @ [q] @ p @ ([CHR 0x27] @ '');'') @ [] @ rest)
          = occurrences IMPORT_DECL p + occurrences IMPORT_DECL rest\<close>
      using 1(1) by (intro decl_around_payload h y) auto
    then show ?thesis using e 1(1) by simp
  next
    case 2
    have y: "apart (tl IMPORT_DECL) [q]" using 2 by (elim disjE; hypsubst) code_simp+
    have \<open>occurrences IMPORT_DECL (THROW_ERROR @ (w1 @ [q]) @ p @ [q] @ (w2 @ '');'') @ rest)
          = occurrences IMPORT_DECL p + occurrences IMPORT_DECL rest\<close>
      using 2 w by (intro decl_around_payload h y) auto
    then show ?thesis by simp
  qed
qed

lemma re_sub_throw_decl:
  "(ws, q, q') \<in> set calendar_patterns \<Longrightarrow>
   occurrences IMPORT_DECL (re_sub_throw ws q q' s) = occurrences IMPORT_DECL s"
proof (induction ws q q' s rule: re_sub_throw.induct)
  case (1 ws q q')
  then show ?case by simp
next
  case (2 ws q q' c cs)
  show ?case
  proof (cases "match_throw ws q (c # cs)")
    case None
    have a1: "apart (tl IMPORT_DECL) THROW_ERROR" by code_simp
    have a2: "apart (tl IMPORT_DECL) THROW_INFRA" by code_simp
    obtain e d' where d: "IMPORT_DECL = e # d'" by (cases IMPORT_DECL) (auto simp: IMPORT_DECL_def)
    have "prefix IMPORT_DECL (c # re_sub_throw ws q q' cs) \<longleftrightarrow> prefix IMPORT_DECL (c # cs)"
      using prefix_re_sub_throw [of d' ws q q' cs] a1 a2 by (simp add: d)
    then show ?thesis using "2.IH"(1) [OF None "2.prems"] None by simp
  next
    case (Some r)
    obtain p rest where r: "r = (p, rest)" by (cases r)
    from match_throw_sound [of ws q "c # cs" p rest] Some r
    obtain w1 w2 where s: \<open>c # cs = THROW_ERROR @ w1 @ [q] @ p @ [q] @ w2 @ '');'' @ rest\<close>
      and w: "if ws then (\<forall>c \<in> set (w1 @ w2). isspace c) else w1 = [] \<and> w2 = []"
      by auto
    have ih: "occurrences IMPORT_DECL (re_sub_throw ws q q' rest) = occurrences IMPORT_DECL rest"
      using "2.IH"(2) [OF Some r [symmetric] "2.prems"] .
    have "occurrences IMPORT_DECL (re_sub_throw ws q q' (c # cs))
          = occurrences IMPORT_DECL p + occurrences IMPORT_DECL (re_sub_throw ws q q' rest)"
      using Some r decl_in_replacement [OF "2.prems"] by simp
    moreover have "occurrences IMPORT_DECL (c # cs)
          = occurrences IMPORT_DECL p + occurrences IMPORT_DECL rest"
      unfolding s by (rule decl_in_statement [OF "2.prems" w])
    ultimately show ?thesis using ih by simp
  qed
qed

lemma apply_patterns_decl:
  "set ps \<subseteq> set calendar_patterns \<Longrightarrow>
   occurrences IMPORT_DECL (apply_patterns ps s) = occurrences IMPORT_DECL s"
  unfolding apply_patterns_def
  by (induction ps arbitrary: s) (auto simp: re_sub_throw_decl)

section \<open>The import of the sector fixer\<close>

lemma sum_insert_after_first_import:
  \<open>sum_list (map g (insert_after_first_import ls))
   = sum_list (map g ls) + (if list_ex (prefix ''import '') ls then g IMPORT_DECL else (0::nat))\<close>
  by (induction ls) auto

lemma occurrences_decl_self: "occurrences IMPORT_DECL IMPORT_DECL = 1"
  by code_simp

lemma sector_inject_decl:
  \<open>occurrences IMPORT_DECL (sector_inject f)
   = (if sublist MARKER f then occurrences IMPORT_DECL f
      else if list_ex (prefix ''import '') (str_split (CHR 0x0A) f) then 1 else 0)\<close>
proof (cases "sublist MARKER f")
  case True
  then show ?thesis by (simp add: sector_inject_def)
next
  case False
  have ne: "IMPORT_DECL \<noteq> []" and nl: "CHR 0x0A \<notin> set IMPORT_DECL"
    by (simp_all add: IMPORT_DECL_def)
  let ?ls = "str_split (CHR 0x0A) f"
  have "sum_list (map (occurrences IMPORT_DECL) ?ls)
        = occurrences IMPORT_DECL (str_join [CHR 0x0A] ?ls)"
    using occurrences_str_join [OF ne nl] by simp
  also have "\<dots> = 0"
    using no_marker_no_decl [OF False] by (simp add: str_join_split)
  finally have z: "sum_list (map (occurrences IMPORT_DECL) ?ls) = 0" .
  have "occurrences IMPORT_DECL (sector_inject f)
        = sum_list (map (occurrences IMPORT_DECL) (insert_after_first_import ?ls))"
    using False occurrences_str_join [OF ne nl] by (simp add: sector_inject_def NL_def)
  then show ?thesis
    using False z
    by (simp only: sum_insert_after_first_import occurrences_decl_self) simp
qed

lemma fix_business_sector_repo_decl:
  \<open>occurrences IMPORT_DECL (fix_business_sector_repo f)
   = (if sublist MARKER f then occurrences IMPORT_DECL f
      else if list_ex (prefix ''import '') (str_split (CHR 0x0A) f) then 1 else 0)\<close>
  using apply_patterns_decl [OF sector_patterns_subset]
  by (simp add: fix_business_sector_repo_def sector_inject_decl)

section \<open>What the business fixer renames and where it adds a code\<close>



section \<open>A line that received a code receives another\<close>

text \<open>
  The closing \<^verbatim>\<open>);\<close> of a line that satisfies the condition of the code-appending loop
  is still its closing after the replacement, and the constructor name followed by a
  backquote is still on it. Such a line grows at every run.
\<close>

section \<open>When the second run differs\<close>

lemma length_replace_scan:
  "length old \<le> length new \<Longrightarrow>
   length (replace_scan old new s)
   = length s + replace_count old s * (length new - length old)"
proof (induction old new s rule: replace_scan.induct)
  case (1 old new)
  then show ?case by simp
next
  case (2 old new c cs)
  show ?case
  proof (cases "old \<noteq> [] \<and> prefix old (c # cs)")
    case True
    then obtain r where r: "c # cs = old @ r" by (auto simp: prefix_def)
    then have dr: "drop (length old) (c # cs) = r" by simp
    have "length (c # cs) = length old + length r" using r by (metis length_append)
    moreover have "length (replace_scan old new r)
          = length r + replace_count old r * (length new - length old)"
      using "2.IH"(1) [OF True "2.prems"] dr by simp
    moreover have "replace_scan old new (c # cs) = new @ replace_scan old new r"
      and "replace_count old (c # cs) = Suc (replace_count old r)"
      using True dr by simp_all
    ultimately show ?thesis using "2.prems" by simp
  next
    case False
    have "replace_scan old new (c # cs) = c # replace_scan old new cs"
      and "replace_count old (c # cs) = replace_count old cs"
      using False by auto
    then show ?thesis using "2.IH"(2) [OF False "2.prems"] by simp
  qed
qed

lemma replace_scan_through:
  assumes "old \<noteq> []" "apart (tl old) old"
  shows "replace_scan old new (a @ old @ w)
         = replace_scan old new a @ new @ replace_scan old new w"
proof (induction a rule: length_induct)
  case (1 a)
  show ?case
  proof (cases a)
    case Nil
    obtain c cs where "old = c # cs" using assms(1) by (cases old) auto
    then show ?thesis using Nil by simp
  next
    case (Cons c a')
    show ?thesis
    proof (cases "prefix old a")
      case True
      then obtain a2 where a2: "a = old @ a2" by (auto simp: prefix_def)
      then have "length a2 < length a" using assms(1) by simp
      then have ih: "replace_scan old new (a2 @ old @ w)
                     = replace_scan old new a2 @ new @ replace_scan old new w"
        using 1 by blast
      have "replace_scan old new (a @ old @ w) = new @ replace_scan old new (a2 @ old @ w)"
        using Cons a2 assms(1) by (metis append.assoc append_Cons append_eq_conv_conj
            prefixI replace_scan.simps(2))
      moreover have "replace_scan old new a = new @ replace_scan old new a2"
        using Cons a2 assms(1) by (metis append_eq_conv_conj prefixI replace_scan.simps(2))
      ultimately show ?thesis using ih by simp
    next
      case False
      have np: "\<not> prefix old (a @ old @ w)"
      proof
        assume "prefix old (a @ old @ w)"
        then obtain us where us: "old = a @ us" "prefix us (old @ w)"
          using False prefix_append [of old a "old @ w"] by blast
        have "us \<noteq> []" using us(1) False by auto
        moreover have "suffix us (tl old)" using us(1) Cons by (simp add: suffix_def)
        ultimately have "\<not> prefix us old \<and> \<not> prefix old us"
          using apart_suffix [OF assms(2)] by blast
        then show False using prefix_append_cases [OF us(2)] by blast
      qed
      have "length a' < length a" using Cons by simp
      then have ih: "replace_scan old new (a' @ old @ w)
                     = replace_scan old new a' @ new @ replace_scan old new w"
        using 1 by blast
      have "replace_scan old new (a @ old @ w) = c # replace_scan old new (a' @ old @ w)"
        using np Cons by simp
      moreover have "replace_scan old new a = c # replace_scan old new a'"
        using False Cons by simp
      ultimately show ?thesis using ih by simp
    qed
  qed
qed

lemma str_split_line:
  "c \<notin> set l \<Longrightarrow> str_split c (l @ c # r) = l # str_split c r"
  by (induction l) (auto simp: Let_def)

lemma str_split_single: "c \<notin> set l \<Longrightarrow> str_split c l = [l]"
  by (induction l) (auto simp: Let_def)

lemma str_split_join:
  "ls \<noteq> [] \<Longrightarrow> \<forall>l \<in> set ls. c \<notin> set l \<Longrightarrow> str_split c (str_join [c] ls) = ls"
proof (induction ls)
  case Nil
  then show ?case by simp
next
  case (Cons l ls)
  show ?case
  proof (cases ls)
    case Nil
    then show ?thesis using Cons.prems by (simp add: str_split_single)
  next
    case (Cons l' ls')
    then have "str_join [c] (l # ls) = l @ c # str_join [c] ls" by simp
    then show ?thesis
      using Cons.IH Cons.prems Cons by (simp add: str_split_line)
  qed
qed

lemma str_split_no_sep: "l \<in> set (str_split c s) \<Longrightarrow> c \<notin> set l"
proof (induction s arbitrary: l)
  case Nil
  then show ?case by simp
next
  case (Cons x xs)
  obtain h t where ht: "str_split c xs = h # t"
    using str_split_nonempty [of c xs] by (cases "str_split c xs") auto
  have "c \<notin> set h" using Cons.IH [of h] ht by simp
  moreover have "\<And>l. l \<in> set t \<Longrightarrow> c \<notin> set l" using Cons.IH ht by simp
  ultimately show ?case using Cons.prems ht
    by (auto simp: Let_def split: if_splits)
qed

lemma length_str_join:
  "length (str_join [c] ls) = sum_list (map length ls) + (length ls - 1)"
proof (induction ls)
  case Nil
  then show ?case by simp
next
  case (Cons l ls)
  then show ?case by (cases ls) auto
qed

lemma line_sublist: "l \<in> set ls \<Longrightarrow> sublist l (str_join sep ls)"
proof (induction ls)
  case Nil
  then show ?case by simp
next
  case (Cons x xs)
  show ?case
  proof (cases "l = x")
    case True
    then show ?thesis by (cases xs) auto
  next
    case False
    then have "sublist l (str_join sep xs)" using Cons by simp
    moreover have "xs \<noteq> []" using False Cons.prems by auto
    ultimately show ?thesis
      by (cases xs) (auto simp: sublist_append)
  qed
qed


lemma rstrip_append_spaces: "\<forall>c \<in> set w. isspace c \<Longrightarrow> rstrip (y @ w) = rstrip y"
  by (simp add: rstrip_def dropWhile_append)

lemma strip_decomp:
  "\<exists>u w. l = u @ strip l @ w \<and> (\<forall>c \<in> set u. isspace c) \<and> (\<forall>c \<in> set w. isspace c)"
proof -
  obtain w where w: "l = rstrip l @ w" "\<forall>c \<in> set w. isspace c"
    using rstrip_decomp by blast
  have "rstrip l = takeWhile isspace (rstrip l) @ strip l"
    by (simp add: strip_def lstrip_def)
  moreover have "\<forall>c \<in> set (takeWhile isspace (rstrip l)). isspace c"
    by (auto dest: set_takeWhileD)
  ultimately show ?thesis using w by (metis append.assoc)
qed

lemma strip_keeps_closing_spaces:
  assumes "\<forall>c \<in> set w. isspace c"
  shows \<open>suffix '');'' (strip (x @ '');'' @ w))\<close>
proof -
  have "\<not> isspace (CHR '';'')" "\<not> isspace (CHR '')'')" by (simp_all add: isspace_def)
  moreover have \<open>rstrip (x @ '');'' @ w) = rstrip ((x @ '')'') @ '';'')\<close>
    using rstrip_append_spaces [OF assms, of \<open>x @ '');''\<close>] by simp
  ultimately show ?thesis
    using rstrip_snoc_nonspace [of \<open>CHR '';''\<close> \<open>x @ '')''\<close>]
      suffix_lstrip [of \<open>CHR '')''\<close> \<open>'';''\<close> x]
    by (simp add: strip_def lstrip_def)
qed

lemma replace_scan_spaces:
  assumes "\<forall>c \<in> set w. isspace c"
  shows \<open>replace_scan '');'' new w = w\<close>
proof -
  have "\<not> isspace (CHR '')'')" by (simp add: isspace_def)
  then have "CHR '')'' \<notin> set w" using assms by blast
  then have \<open>\<not> sublist '');'' w\<close>
    using set_mono_sublist [of \<open>'');''\<close> w] by auto
  then show ?thesis by (rule replace_scan_id)
qed

lemma business_line_matches_shape:
  assumes "business_line_matches l"
  shows \<open>\<exists>a w. l = a @ '');'' @ w \<and> (\<forall>c \<in> set w. isspace c)\<close>
proof -
  obtain u w where l: "l = u @ strip l @ w" and w: "\<forall>c \<in> set w. isspace c"
    using strip_decomp by blast
  from assms obtain z where \<open>strip l = z @ '');''\<close>
    by (auto simp: business_line_matches_def suffix_def)
  with l have \<open>l = (u @ z) @ '');'' @ w\<close> by simp
  with w show ?thesis by blast
qed

lemma business_fix_line_shape:
  assumes "business_line_matches l"
  shows \<open>\<exists>a w. business_fix_line l = a @ '');'' @ w \<and> (\<forall>c \<in> set w. isspace c)\<close>
proof -
  obtain a w where l: \<open>l = a @ '');'' @ w\<close> and w: "\<forall>c \<in> set w. isspace c"
    using business_line_matches_shape [OF assms] by blast
  have ap: \<open>apart (tl '');'') '');''\<close> by code_simp
  have \<open>replace_scan '');'' '', "INFRASTRUCTURE_ERROR");'' (a @ '');'' @ w)
        = replace_scan '');'' '', "INFRASTRUCTURE_ERROR");'' a
          @ '', "INFRASTRUCTURE_ERROR");''
          @ replace_scan '');'' '', "INFRASTRUCTURE_ERROR");'' w\<close>
    by (rule replace_scan_through [OF _ ap]) simp
  then have \<open>business_fix_line l
        = (replace_scan '');'' '', "INFRASTRUCTURE_ERROR");'' a @ '', "INFRASTRUCTURE_ERROR"'')
          @ '');'' @ w\<close>
    using assms l replace_scan_spaces [OF w]
    by (simp add: business_fix_line_def str_replace_def)
  with w show ?thesis by blast
qed

lemma business_fix_line_matches_again:
  assumes "business_line_matches l"
  shows "business_line_matches (business_fix_line l)"
proof -
  have "occurrences (THROW_INFRA @ [CHR 0x60]) (business_fix_line l)
        = occurrences (THROW_INFRA @ [CHR 0x60]) l"
    by (rule business_fix_line_occurrences) code_simp+
  moreover have "sublist (THROW_INFRA @ [CHR 0x60]) l"
    using assms by (simp add: business_line_matches_def)
  ultimately have 1: "sublist (THROW_INFRA @ [CHR 0x60]) (business_fix_line l)"
    using occurrences_zero_iff [of "THROW_INFRA @ [CHR 0x60]"] by metis
  obtain a w where \<open>business_fix_line l = a @ '');'' @ w\<close> "\<forall>c \<in> set w. isspace c"
    using business_fix_line_shape [OF assms] by blast
  then have \<open>suffix '');'' (strip (business_fix_line l))\<close>
    using strip_keeps_closing_spaces [of w a] by simp
  with 1 show ?thesis by (simp add: business_line_matches_def)
qed

lemma business_fix_line_length: "length l \<le> length (business_fix_line l)"
  using length_replace_scan [of \<open>'');''\<close> \<open>'', "INFRASTRUCTURE_ERROR");''\<close> l]
  by (simp add: business_fix_line_def str_replace_def)

lemma business_fix_line_longer:
  assumes "business_line_matches l"
  shows "length l < length (business_fix_line l)"
proof -
  obtain a w where l: \<open>l = a @ '');'' @ w\<close>
    using business_line_matches_shape [OF assms] by blast
  have ap: \<open>apart (tl '');'') '');''\<close> by code_simp
  have \<open>sublist '');'' l\<close> unfolding l by (rule sublist_appendI)
  then have \<open>occurrences '');'' l \<noteq> 0\<close> by (simp add: occurrences_zero_iff)
  then have \<open>0 < replace_count '');'' l\<close>
    using replace_count_occurrences [OF _ ap, of l] by simp
  then show ?thesis
    using assms length_replace_scan [of \<open>'');''\<close> \<open>'', "INFRASTRUCTURE_ERROR");''\<close> l]
    by (simp add: business_fix_line_def str_replace_def)
qed

lemma business_fix_line_no_newline:
  "CHR 0x0A \<notin> set l \<Longrightarrow> CHR 0x0A \<notin> set (business_fix_line l)"
  using set_replace_scan [of \<open>'');''\<close> \<open>'', "INFRASTRUCTURE_ERROR");''\<close> l]
  by (auto simp: business_fix_line_def str_replace_def)

lemma sum_list_length_strict:
  assumes "\<And>l. length (g l) \<le> length (h l)" "x \<in> set ls" "length (g x) < length (h x)"
  shows "(\<Sum>l\<leftarrow>ls. length (g l)) < (\<Sum>l\<leftarrow>ls. length (h l))"
  using assms(2)
proof (induction ls)
  case Nil
  then show ?case by simp
next
  case (Cons y ys)
  have le: "(\<Sum>l\<leftarrow>ys. length (g l)) \<le> (\<Sum>l\<leftarrow>ys. length (h l))"
    using assms(1) by (intro sum_list_mono) simp
  show ?case
  proof (cases "x = y")
    case True
    then show ?thesis using le assms(3) by simp
  next
    case False
    then have "(\<Sum>l\<leftarrow>ys. length (g l)) < (\<Sum>l\<leftarrow>ys. length (h l))"
      using Cons by simp
    then show ?thesis using assms(1) [of y] by simp
  qed
qed

lemma business_add_codes_twice_longer:
  assumes "line \<in> set (str_split (CHR 0x0A) s)" "business_line_matches line"
  shows "length (business_add_codes s) < length (business_add_codes (business_add_codes s))"
proof -
  let ?ls = "str_split (CHR 0x0A) s"
  let ?f = business_fix_line
  have ne: "map ?f ?ls \<noteq> []" by (simp add: str_split_nonempty)
  have nn: "\<forall>l \<in> set (map ?f ?ls). CHR 0x0A \<notin> set l"
    using str_split_no_sep business_fix_line_no_newline by auto
  have sp: "str_split (CHR 0x0A) (business_add_codes s) = map ?f ?ls"
    unfolding business_add_codes_def NL_def by (rule str_split_join [OF ne nn])
  have 1: "length (business_add_codes s)
           = (\<Sum>l\<leftarrow>?ls. length (?f l)) + (length ?ls - 1)"
    by (simp add: business_add_codes_def NL_def length_str_join comp_def)
  have 2: "length (business_add_codes (business_add_codes s))
           = (\<Sum>l\<leftarrow>?ls. length (?f (?f l))) + (length ?ls - 1)"
    unfolding business_add_codes_def [of "business_add_codes s"] sp NL_def
    by (simp add: length_str_join comp_def)
  have "length (?f line) < length (?f (?f line))"
    by (rule business_fix_line_longer [OF business_fix_line_matches_again [OF assms(2)]])
  then have "(\<Sum>l\<leftarrow>?ls. length (?f l)) < (\<Sum>l\<leftarrow>?ls. length (?f (?f l)))"
    using assms(1) business_fix_line_length
    by (intro sum_list_length_strict [of ?f "\<lambda>l. ?f (?f l)" line]) simp_all
  then show ?thesis using 1 2 by simp
qed

lemma fix_business_repo_twice_differs:
  assumes "line \<in> set (str_split (CHR 0x0A) (business_rename (business_inject f)))"
    "business_line_matches line"
  shows "fix_business_repo (fix_business_repo f) \<noteq> fix_business_repo f"
proof -
  let ?X = "business_rename (business_inject f)"
  let ?Y = "fix_business_repo f"
  have Y: "?Y = business_add_codes ?X" by (simp add: fix_business_repo_def)
  have "sublist line ?X"
    using line_sublist [OF assms(1), of NL] by (simp add: NL_def str_join_split)
  moreover have "sublist THROW_INFRA line"
    using assms(2) by (auto simp: business_line_matches_def sublist_def)
  ultimately have "sublist THROW_INFRA ?X" by (rule sublist_order.order_trans [rotated])
  then have "occurrences THROW_INFRA ?X \<noteq> 0" by (simp add: occurrences_zero_iff)
  moreover have "occurrences THROW_INFRA ?Y = occurrences THROW_INFRA ?X"
    unfolding Y by (rule business_add_codes_occurrences) code_simp+
  ultimately have "occurrences THROW_INFRA ?Y \<noteq> 0" by linarith
  then have "sublist THROW_INFRA ?Y" by (simp only: occurrences_zero_iff not_not)
  moreover have "sublist MARKER THROW_INFRA" by code_simp
  ultimately have "sublist MARKER ?Y" by (rule sublist_order.order_trans [rotated])
  then have inj: "business_inject ?Y = ?Y" by (simp add: business_inject_def)
  have "\<not> sublist THROW_ERROR ?Y"
    using fix_business_repo_no_throw_error [of f] by (simp add: occurrences_zero_iff)
  then have ren: "business_rename ?Y = ?Y"
    using replace_scan_id [of THROW_ERROR ?Y THROW_INFRA]
    by (simp add: business_rename_def str_replace_def THROW_ERROR_def)
  have "fix_business_repo ?Y = business_add_codes (business_rename (business_inject ?Y))"
    by (rule fix_business_repo_def)
  then have "fix_business_repo ?Y = business_add_codes ?Y"
    by (simp only: inj ren)
  then have "length (fix_business_repo ?Y) = length (business_add_codes (business_add_codes ?X))"
    by (simp only: Y [symmetric])
  moreover have "length (business_add_codes ?X) < length (business_add_codes (business_add_codes ?X))"
    using assms by (rule business_add_codes_twice_longer)
  ultimately have "length ?Y < length (fix_business_repo ?Y)"
    by (simp only: Y [symmetric])
  then show ?thesis by auto
qed

section \<open>Running the business fixer twice\<close>

text \<open>
  C1, as stated, fails: \<^verbatim>\<open>fix_business_repo.py\<close> has no check for a code that is already
  there. The line it rewrote still contains the constructor name followed by a backquote
  and still ends with \<^verbatim>\<open>);\<close>, so the second run appends a second code.
\<close>

theorem C1_counterexample:
  \<open>fix_business_repo ''throw new Error(`x`);''
     = ''throw new InfrastructureException(`x`, "INFRASTRUCTURE_ERROR");''
   \<and> fix_business_repo (fix_business_repo ''throw new Error(`x`);'')
     = ''throw new InfrastructureException(`x`, "INFRASTRUCTURE_ERROR", "INFRASTRUCTURE_ERROR");''
   \<and> fix_business_repo (fix_business_repo ''throw new Error(`x`);'')
     \<noteq> fix_business_repo ''throw new Error(`x`);''\<close>
  by code_simp

text \<open>
  C1, amended: running \<^verbatim>\<open>fix_business_repo.py\<close> twice yields the same text as running it
  once exactly on the files in which, after the import is inserted and the constructor
  renamed, no line satisfies the condition of the code-appending loop. The import guard and
  the rename change nothing on the second run; the code-appending loop appends a further
  code to every line it appended one to.
\<close>

theorem C1_idempotent_exactly_when_no_line_matches:
  "fix_business_repo (fix_business_repo f) = fix_business_repo f
   \<longleftrightarrow> (\<forall>line \<in> set (str_split (CHR 0x0A) (business_rename (business_inject f))).
          \<not> business_line_matches line)"
  using fix_business_repo_twice [of f] fix_business_repo_twice_differs [of _ f] by blast

theorem C1_idempotent_exactly_when_no_line_matches_witness:
  \<open>fix_business_repo
     (fix_business_repo (business_anchor @ NL @ ''throw new Error('gone: ' + id);''))
   = fix_business_repo (business_anchor @ NL @ ''throw new Error('gone: ' + id);'')
   \<and> fix_business_repo (business_anchor @ NL @ ''throw new Error('gone: ' + id);'')
   = business_anchor @ NL @ IMPORT_DECL @ NL @
       ''throw new InfrastructureException('gone: ' + id);''\<close>
proof -
  have h: \<open>\<forall>line \<in> set (str_split (CHR 0x0A) (business_rename (business_inject
              (business_anchor @ NL @ ''throw new Error('gone: ' + id);'')))).
             \<not> business_line_matches line\<close>
    by code_simp
  have v: \<open>fix_business_repo (business_anchor @ NL @ ''throw new Error('gone: ' + id);'')
           = business_anchor @ NL @ IMPORT_DECL @ NL @
               ''throw new InfrastructureException('gone: ' + id);''\<close>
    by code_simp
  show ?thesis
    using iffD2 [OF C1_idempotent_exactly_when_no_line_matches, OF h] v by simp
qed

section \<open>Three-line statements in the multi-line fixer\<close>

lemma quick_fix_firesI:
  \<open>i + 2 < length ls \<Longrightarrow> sublist THROW_INFRA (ls ! i) \<Longrightarrow> strip (ls ! (i + 2)) = '');''
   \<Longrightarrow> quick_fix_fires i ls\<close>
  by (simp add: quick_fix_fires_def)

lemma quick_fix_lines_length: "length (quick_fix_lines ls) = length ls"
  by (simp add: quick_fix_lines_def)

text \<open>
  C6, as stated, fails twice. A three-line statement whose message is not one of the
  eight listed ones gets the comma but no code argument; and when the code is added, the
  closing line is replaced by a fixed text, so a closing line indented by two spaces
  comes out indented by six.
\<close>

theorem C6_counterexample:
  \<open>quick_fix_business
     (''  throw new InfrastructureException('' @ NL @
      ''    `Business ${id} is closed`'' @ NL @
      ''  );'' @ NL)
   = ''  throw new InfrastructureException('' @ NL @
     ''    `Business ${id} is closed`,'' @ NL @
     ''  );'' @ NL
   \<and> quick_fix_business
     (''  throw new InfrastructureException('' @ NL @
      ''    `Failed to save business: ${e}`'' @ NL @
      ''  );'' @ NL)
   = ''  throw new InfrastructureException('' @ NL @
     ''    `Failed to save business: ${e}`,'' @ NL @
     ''        "INFRASTRUCTURE_ERROR"'' @ NL @
     ''      );'' @ NL\<close>
  by code_simp

text \<open>
  C6, amended: for every three-line statement of the file (a line that contains
  \<^verbatim>\<open>throw new InfrastructureException(\<close>, a message line that has no trailing comma and is
  itself neither such a line nor a closing line, and a line that is \<^verbatim>\<open>);\<close> once stripped)
  the fixer keeps the first line, replaces the trailing white space of the message line
  by a comma and a newline, so that its indentation is preserved, and, only when the
  message line contains one of the eight listed substrings, replaces the closing line by
  the fixed text \<^term>\<open>CODE_AND_CLOSE\<close>; otherwise the closing line stays as it is.
\<close>

theorem C6_three_line_statement:
  assumes "ls = readlines content"
    and "i + 2 < length ls"
    and "sublist THROW_INFRA (ls ! i)"
    and \<open>strip (ls ! (i + 2)) = '');''\<close>
    and \<open>\<not> suffix '','' (rstrip (ls ! (i + 1)))\<close>
    and "\<not> sublist THROW_INFRA (ls ! (i + 1))"
    and \<open>strip (ls ! (i + 1)) \<noteq> '');''\<close>
  shows \<open>quick_fix_business content = concat (quick_fix_lines ls)
    \<and> length (quick_fix_lines ls) = length ls
    \<and> quick_fix_lines ls ! i = ls ! i
    \<and> quick_fix_lines ls ! (i + 1) = rstrip (ls ! (i + 1)) @ '',\<newline>''
    \<and> ((\<exists>c \<in> set (ls ! (i + 1)). \<not> isspace c) \<longrightarrow>
          takeWhile isspace (quick_fix_lines ls ! (i + 1)) = takeWhile isspace (ls ! (i + 1)))
    \<and> quick_fix_lines ls ! (i + 2)
        = (if list_ex (\<lambda>m. sublist m (ls ! (i + 1))) quick_fix_messages
           then CODE_AND_CLOSE else ls ! (i + 2))\<close>
proof -
  have f: "quick_fix_fires i ls"
    using assms(2-4) by (rule quick_fix_firesI)
  note b = quick_fix_lines_block [OF f assms(7) assms(6)]
  have 1: "quick_fix_business content = concat (quick_fix_lines ls)"
    by (simp add: quick_fix_business_def writelines_def assms(1))
  have 4: \<open>quick_fix_lines ls ! (i + 1) = rstrip (ls ! (i + 1)) @ '',\<newline>''\<close>
    using b(2) assms(5) by (simp add: quick_fix_comma_def)
  have 5: "(\<exists>c \<in> set (ls ! (i + 1)). \<not> isspace c) \<longrightarrow>
           takeWhile isspace (quick_fix_lines ls ! (i + 1)) = takeWhile isspace (ls ! (i + 1))"
    using b(2) indent_quick_fix_comma [of "ls ! (i + 1)"] by simp
  have 6: "quick_fix_lines ls ! (i + 2)
           = (if list_ex (\<lambda>m. sublist m (ls ! (i + 1))) quick_fix_messages
              then CODE_AND_CLOSE else ls ! (i + 2))"
    using b(3) by (simp add: quick_fix_closing_cases)
  from 1 quick_fix_lines_length b(1) 4 5 6 show ?thesis by blast
qed

theorem C6_three_line_statement_witness:
  \<open>quick_fix_lines (readlines
      (''  throw new InfrastructureException('' @ NL @
       ''    `Failed to save business: ${e}`  '' @ NL @
       ''  );'' @ NL)) ! (0 + 1)
   = ''    `Failed to save business: ${e}`,'' @ NL
   \<and> quick_fix_lines (readlines
      (''  throw new InfrastructureException('' @ NL @
       ''    `Failed to save business: ${e}`  '' @ NL @
       ''  );'' @ NL)) ! (0 + 2)
   = CODE_AND_CLOSE\<close>
proof -
  let ?c = \<open>''  throw new InfrastructureException('' @ NL @
            ''    `Failed to save business: ${e}`  '' @ NL @
            ''  );'' @ NL\<close>
  have h2: "0 + 2 < length (readlines ?c)" by code_simp
  have h3: "sublist THROW_INFRA (readlines ?c ! 0)" by code_simp
  have h4: \<open>strip (readlines ?c ! (0 + 2)) = '');''\<close> by code_simp
  have h5: \<open>\<not> suffix '','' (rstrip (readlines ?c ! (0 + 1)))\<close> by code_simp
  have h6: "\<not> sublist THROW_INFRA (readlines ?c ! (0 + 1))" by code_simp
  have h7: \<open>strip (readlines ?c ! (0 + 1)) \<noteq> '');''\<close> by code_simp
  have r: \<open>rstrip (readlines ?c ! (0 + 1)) @ '',\<newline>''
           = ''    `Failed to save business: ${e}`,'' @ NL\<close>
    by code_simp
  have m: \<open>list_ex (\<lambda>m. sublist m (readlines ?c ! (0 + 1))) quick_fix_messages\<close>
    by code_simp
  note t = C6_three_line_statement [OF refl h2 h3 h4 h5 h6 h7]
  have 1: \<open>quick_fix_lines (readlines ?c) ! (0 + 1)
           = rstrip (readlines ?c ! (0 + 1)) @ '',\<newline>''\<close>
    using t by blast
  have 2: \<open>quick_fix_lines (readlines ?c) ! (0 + 2)
           = (if list_ex (\<lambda>m. sublist m (readlines ?c ! (0 + 1))) quick_fix_messages
              then CODE_AND_CLOSE else readlines ?c ! (0 + 2))\<close>
    using t by blast
  have 3: "quick_fix_lines (readlines ?c) ! (0 + 2) = CODE_AND_CLOSE"
    using 2 m by (simp only: if_True)
  from 1 r 3 show ?thesis by (simp only:)
qed



section \<open>What the patterns do to a statement\<close>

text \<open>
  C2, as stated, fails: the single-quote pattern of the regular-expression fixers writes
  the captured message between double quotes.
\<close>

theorem C2_counterexample:
  \<open>match_throw False (CHR 0x27) ''throw new Error('not found');'' = Some (''not found'', [])
   \<and> fix_business_sector_repo ''throw new Error('not found');''
       = ''throw new InfrastructureException("not found", "INFRASTRUCTURE_ERROR");''\<close>
  by code_simp

text \<open>
  C2, amended: for every statement a pattern of the regular-expression fixers matches,
  the message in the output is the captured message, character for character; the double
  quotes and the backquotes are kept, the single quotes are replaced by double quotes.
  Every text of the shape of a pattern is matched, with the message between the quotes
  as the capture. In the business fixer, a one-line template statement whose line has
  \<^verbatim>\<open>);\<close> at its end only keeps its message and its backquotes.
\<close>

theorem C2_message_kept_single_quotes_doubled:
  \<open>((ws, q, q') \<in> set calendar_patterns \<and> match_throw ws q s = Some (p, rest) \<longrightarrow>
      (\<exists>w1 w2. s = THROW_ERROR @ w1 @ [q] @ p @ [q] @ w2 @ '');'' @ rest)
      \<and> re_sub_throw ws q q' s
          = THROW_INFRA @ [q'] @ p @ [q'] @ '', "INFRASTRUCTURE_ERROR");''
            @ re_sub_throw ws q q' rest
      \<and> q' = (if q = CHR 0x27 then CHR 0x22 else q))
   \<and> ((ws, q, q') \<in> set calendar_patterns \<and> m \<noteq> [] \<and> q \<notin> set m
       \<and> (if ws then (\<forall>c \<in> set (w1 @ w2). isspace c) else w1 = [] \<and> w2 = []) \<longrightarrow>
      match_throw ws q (THROW_ERROR @ w1 @ [q] @ m @ [q] @ w2 @ '');'' @ t) = Some (m, t))
   \<and> (\<not> sublist '');'' (a @ THROW_INFRA @ ''`'' @ b @ ''`)'') \<longrightarrow>
      business_fix_line (a @ THROW_INFRA @ ''`'' @ b @ ''`);'')
      = a @ THROW_INFRA @ ''`'' @ b @ ''`, "INFRASTRUCTURE_ERROR");'')\<close>
proof -
  have 1: \<open>(ws, q, q') \<in> set calendar_patterns \<and> match_throw ws q s = Some (p, rest) \<longrightarrow>
      (\<exists>w1 w2. s = THROW_ERROR @ w1 @ [q] @ p @ [q] @ w2 @ '');'' @ rest)
      \<and> re_sub_throw ws q q' s
          = THROW_INFRA @ [q'] @ p @ [q'] @ '', "INFRASTRUCTURE_ERROR");''
            @ re_sub_throw ws q q' rest
      \<and> q' = (if q = CHR 0x27 then CHR 0x22 else q)\<close>
  proof (intro impI, elim conjE)
    assume pat: "(ws, q, q') \<in> set calendar_patterns"
      and m: "match_throw ws q s = Some (p, rest)"
    from match_throw_sound [OF m]
    have a: \<open>\<exists>w1 w2. s = THROW_ERROR @ w1 @ [q] @ p @ [q] @ w2 @ '');'' @ rest\<close>
      by blast
    have b: \<open>re_sub_throw ws q q' s
          = THROW_INFRA @ [q'] @ p @ [q'] @ '', "INFRASTRUCTURE_ERROR");''
            @ re_sub_throw ws q q' rest\<close>
      using re_sub_throw_match [OF m, of q'] by (simp add: throw_replacement_def)
    from a b pattern_quotes(2) [OF pat]
    show \<open>(\<exists>w1 w2. s = THROW_ERROR @ w1 @ [q] @ p @ [q] @ w2 @ '');'' @ rest)
      \<and> re_sub_throw ws q q' s
          = THROW_INFRA @ [q'] @ p @ [q'] @ '', "INFRASTRUCTURE_ERROR");''
            @ re_sub_throw ws q q' rest
      \<and> q' = (if q = CHR 0x27 then CHR 0x22 else q)\<close>
      by blast
  qed
  have 2: \<open>(ws, q, q') \<in> set calendar_patterns \<and> m \<noteq> [] \<and> q \<notin> set m
       \<and> (if ws then (\<forall>c \<in> set (w1 @ w2). isspace c) else w1 = [] \<and> w2 = []) \<longrightarrow>
      match_throw ws q (THROW_ERROR @ w1 @ [q] @ m @ [q] @ w2 @ '');'' @ t) = Some (m, t)\<close>
    using match_throw_complete [of m q ws w1 w2 t] pattern_quotes(1) [of ws q q'] by blast
  have 3: \<open>\<not> sublist '');'' (a @ THROW_INFRA @ ''`'' @ b @ ''`)'') \<longrightarrow>
      business_fix_line (a @ THROW_INFRA @ ''`'' @ b @ ''`);'')
      = a @ THROW_INFRA @ ''`'' @ b @ ''`, "INFRASTRUCTURE_ERROR");''\<close>
    using business_fix_line_template by blast
  from 1 2 3 show ?thesis by blast
qed

theorem C2_message_kept_single_quotes_doubled_witness:
  \<open>re_sub_throw False (CHR 0x27) (CHR 0x22) ''throw new Error('Sector "x" is unknown');''
   = THROW_INFRA @ [CHR 0x22] @ ''Sector "x" is unknown'' @ [CHR 0x22]
     @ '', "INFRASTRUCTURE_ERROR");'' @ re_sub_throw False (CHR 0x27) (CHR 0x22) []
   \<and> business_fix_line (''    '' @ THROW_INFRA @ ''`'' @ ''Sector ${x} is unknown'' @ ''`);'')
   = ''    '' @ THROW_INFRA @ ''`'' @ ''Sector ${x} is unknown'' @ ''`, "INFRASTRUCTURE_ERROR");''\<close>
proof -
  have p: "(False, CHR 0x27, CHR 0x22) \<in> set calendar_patterns"
    by (simp add: calendar_patterns_def)
  have m: \<open>match_throw False (CHR 0x27) ''throw new Error('Sector "x" is unknown');''
           = Some (''Sector "x" is unknown'', [])\<close>
    by code_simp
  have n: \<open>\<not> sublist '');'' (''    '' @ THROW_INFRA @ ''`'' @ ''Sector ${x} is unknown'' @ ''`)'')\<close>
    by code_simp
  note t = C2_message_kept_single_quotes_doubled
    [of False "CHR 0x27" "CHR 0x22" \<open>''throw new Error('Sector "x" is unknown');''\<close>
        \<open>''Sector "x" is unknown''\<close> "[]" _ _ _ _ \<open>''    ''\<close> \<open>''Sector ${x} is unknown''\<close>]
  have 1: \<open>re_sub_throw False (CHR 0x27) (CHR 0x22) ''throw new Error('Sector "x" is unknown');''
   = THROW_INFRA @ [CHR 0x22] @ ''Sector "x" is unknown'' @ [CHR 0x22]
     @ '', "INFRASTRUCTURE_ERROR");'' @ re_sub_throw False (CHR 0x27) (CHR 0x22) []\<close>
    using t p m by blast
  have 2: \<open>business_fix_line (''    '' @ THROW_INFRA @ ''`'' @ ''Sector ${x} is unknown'' @ ''`);'')
   = ''    '' @ THROW_INFRA @ ''`'' @ ''Sector ${x} is unknown'' @ ''`, "INFRASTRUCTURE_ERROR");''\<close>
    using t n by blast
  from 1 2 show ?thesis by (rule conjI)
qed

section \<open>Which code a statement receives\<close>

text \<open>
  C7, as stated, fails: the multi-line fixer has no default. A three-line statement whose
  message contains none of its eight substrings is changed (it gets the comma) and
  receives no code.
\<close>

theorem C7_counterexample:
  \<open>quick_fix_business
     (''    throw new InfrastructureException('' @ NL @
      ''      `Business ${name} already exists`'' @ NL @
      ''    );'' @ NL)
   = ''    throw new InfrastructureException('' @ NL @
     ''      `Business ${name} already exists`,'' @ NL @
     ''    );'' @ NL
   \<and> \<not> sublist ''INFRASTRUCTURE_ERROR''
        (quick_fix_business
          (''    throw new InfrastructureException('' @ NL @
           ''      `Business ${name} already exists`'' @ NL @
           ''    );'' @ NL))\<close>
  by code_simp

text \<open>
  C7, amended: the regular-expression fixers have no table and give every statement they
  match the constant \<^verbatim>\<open>"INFRASTRUCTURE_ERROR"\<close>. The multi-line fixer gives that code to a
  three-line statement whose message line contains one of its eight substrings and has
  no default: for any other message the closing line, and with it the absence of a code,
  stays as it is.
\<close>

theorem C7_constant_code_and_no_default:
  \<open>((ws, q, q') \<in> set calendar_patterns \<and> match_throw ws q s = Some (p, rest) \<longrightarrow>
      re_sub_throw ws q q' s = throw_replacement q' p @ re_sub_throw ws q q' rest
      \<and> suffix '', "INFRASTRUCTURE_ERROR");'' (throw_replacement q' p))
   \<and> quick_fix_closing msg closing
       = (if list_ex (\<lambda>m. sublist m msg) quick_fix_messages then CODE_AND_CLOSE else closing)
   \<and> (ls = readlines content \<and> i + 2 < length ls \<and> sublist THROW_INFRA (ls ! i)
       \<and> strip (ls ! (i + 2)) = '');''
       \<and> \<not> sublist THROW_INFRA (ls ! (i + 1)) \<and> strip (ls ! (i + 1)) \<noteq> '');'' \<longrightarrow>
      quick_fix_lines ls ! (i + 2)
      = (if list_ex (\<lambda>m. sublist m (ls ! (i + 1))) quick_fix_messages
         then CODE_AND_CLOSE else ls ! (i + 2)))\<close>
proof -
  have 1: \<open>(ws, q, q') \<in> set calendar_patterns \<and> match_throw ws q s = Some (p, rest) \<longrightarrow>
      re_sub_throw ws q q' s = throw_replacement q' p @ re_sub_throw ws q q' rest
      \<and> suffix '', "INFRASTRUCTURE_ERROR");'' (throw_replacement q' p)\<close>
    using re_sub_throw_match [of ws q s p rest q']
    by (auto simp: throw_replacement_def suffix_def)
  have 2: "quick_fix_closing msg closing
       = (if list_ex (\<lambda>m. sublist m msg) quick_fix_messages then CODE_AND_CLOSE else closing)"
    by (rule quick_fix_closing_cases)
  have 3: \<open>ls = readlines content \<and> i + 2 < length ls \<and> sublist THROW_INFRA (ls ! i)
       \<and> strip (ls ! (i + 2)) = '');''
       \<and> \<not> sublist THROW_INFRA (ls ! (i + 1)) \<and> strip (ls ! (i + 1)) \<noteq> '');'' \<longrightarrow>
      quick_fix_lines ls ! (i + 2)
      = (if list_ex (\<lambda>m. sublist m (ls ! (i + 1))) quick_fix_messages
         then CODE_AND_CLOSE else ls ! (i + 2))\<close>
  proof (intro impI, elim conjE)
    assume "i + 2 < length ls" "sublist THROW_INFRA (ls ! i)"
      and \<open>strip (ls ! (i + 2)) = '');''\<close>
      and m: "\<not> sublist THROW_INFRA (ls ! (i + 1))" \<open>strip (ls ! (i + 1)) \<noteq> '');''\<close>
    then have "quick_fix_fires i ls" by (intro quick_fix_firesI)
    from quick_fix_lines_block(3) [OF this m(2) m(1)]
    show "quick_fix_lines ls ! (i + 2)
      = (if list_ex (\<lambda>m. sublist m (ls ! (i + 1))) quick_fix_messages
         then CODE_AND_CLOSE else ls ! (i + 2))"
      by (simp only: quick_fix_closing_cases)
  qed
  from 1 2 3 show ?thesis by blast
qed

theorem C7_constant_code_and_no_default_witness:
  \<open>re_sub_throw False (CHR 0x22) (CHR 0x22) ''throw new Error("Calendar is locked");''
   = throw_replacement (CHR 0x22) ''Calendar is locked''
     @ re_sub_throw False (CHR 0x22) (CHR 0x22) []
   \<and> quick_fix_lines (readlines
       (''throw new InfrastructureException('' @ NL @
        ''  `Failed to delete business: ${e}`,'' @ NL @
        '');'' @ NL)) ! (0 + 2)
     = CODE_AND_CLOSE\<close>
proof -
  let ?c = \<open>''throw new InfrastructureException('' @ NL @
            ''  `Failed to delete business: ${e}`,'' @ NL @
            '');'' @ NL\<close>
  have p: "(False, CHR 0x22, CHR 0x22) \<in> set calendar_patterns"
    by (simp add: calendar_patterns_def)
  have m: \<open>match_throw False (CHR 0x22) ''throw new Error("Calendar is locked");''
           = Some (''Calendar is locked'', [])\<close>
    by code_simp
  have h: \<open>0 + 2 < length (readlines ?c) \<and> sublist THROW_INFRA (readlines ?c ! 0)
       \<and> strip (readlines ?c ! (0 + 2)) = '');''
       \<and> \<not> sublist THROW_INFRA (readlines ?c ! (0 + 1))
       \<and> strip (readlines ?c ! (0 + 1)) \<noteq> '');''\<close>
    by code_simp
  have l: \<open>list_ex (\<lambda>m. sublist m (readlines ?c ! (0 + 1))) quick_fix_messages\<close>
    by code_simp
  note t = C7_constant_code_and_no_default
    [of False "CHR 0x22" "CHR 0x22" \<open>''throw new Error("Calendar is locked");''\<close>
        \<open>''Calendar is locked''\<close> "[]" _ _ "readlines ?c" ?c 0]
  have 1: \<open>re_sub_throw False (CHR 0x22) (CHR 0x22) ''throw new Error("Calendar is locked");''
   = throw_replacement (CHR 0x22) ''Calendar is locked''
     @ re_sub_throw False (CHR 0x22) (CHR 0x22) []\<close>
    using t p m by blast
  have \<open>quick_fix_lines (readlines ?c) ! (0 + 2)
      = (if list_ex (\<lambda>m. sublist m (readlines ?c ! (0 + 1))) quick_fix_messages
         then CODE_AND_CLOSE else readlines ?c ! (0 + 2))\<close>
    using t h by blast
  then have 2: "quick_fix_lines (readlines ?c) ! (0 + 2) = CODE_AND_CLOSE"
    using l by (simp only: if_True)
  from 1 2 show ?thesis by (rule conjI)
qed

section \<open>A statement that already has a code\<close>






section \<open>How often the import is inserted\<close>

text \<open>
  C3, as stated, fails: the declaration is inserted after the anchor, and a file without
  the anchor gets none, although its statement is rewritten.
\<close>

theorem C3_counterexample:
  \<open>fix_business_repo ''throw new Error(`x`);''
     = ''throw new InfrastructureException(`x`, "INFRASTRUCTURE_ERROR");''
   \<and> occurrences IMPORT_DECL (fix_business_repo ''throw new Error(`x`);'') = 0
   \<and> fix_business_sector_repo ''throw new Error(`x`);''
     = ''throw new InfrastructureException(`x`, "INFRASTRUCTURE_ERROR");''
   \<and> occurrences IMPORT_DECL (fix_business_sector_repo ''throw new Error(`x`);'') = 0\<close>
  by code_simp

text \<open>
  C3, amended: the insertion is gated by the presence check: when the marker
  \<^verbatim>\<open>InfrastructureException\<close> occurs in the input, the injector returns the text unchanged
  and the output has as many declarations as the input. When the marker is absent,
  the output of \<^verbatim>\<open>fix_business_repo.py\<close> contains the declaration exactly once if the anchor
  line occurs once in the input and not at all if the anchor is absent, and the output of
  \<^verbatim>\<open>fix_business_sector_repo.py\<close> contains it exactly once if some line starts with
  \<^verbatim>\<open>import \<close> and not at all otherwise; the number of statements that match plays no part.
\<close>

theorem C3_declaration_once_after_the_anchor:
  \<open>(\<not> sublist MARKER f \<and> occurrences business_anchor f \<le> 1 \<longrightarrow>
      occurrences IMPORT_DECL (fix_business_repo f) = occurrences business_anchor f)
   \<and> (\<not> sublist MARKER f \<longrightarrow>
      occurrences IMPORT_DECL (fix_business_sector_repo f)
      = (if list_ex (prefix ''import '') (str_split (CHR 0x0A) f) then 1 else 0))
   \<and> (sublist MARKER f \<longrightarrow>
      business_inject f = f \<and> sector_inject f = f
      \<and> occurrences IMPORT_DECL (fix_business_repo f) = occurrences IMPORT_DECL f
      \<and> occurrences IMPORT_DECL (fix_business_sector_repo f) = occurrences IMPORT_DECL f)\<close>
  by (simp add: fix_business_repo_decl_count fix_business_sector_repo_decl
      business_inject_def sector_inject_def)

theorem C3_declaration_once_after_the_anchor_witness:
  \<open>occurrences IMPORT_DECL
     (fix_business_repo
       (business_anchor @ NL @ ''throw new Error(`a`);'' @ NL @ ''throw new Error(`b`);''))
   = occurrences business_anchor
       (business_anchor @ NL @ ''throw new Error(`a`);'' @ NL @ ''throw new Error(`b`);'')
   \<and> occurrences business_anchor
       (business_anchor @ NL @ ''throw new Error(`a`);'' @ NL @ ''throw new Error(`b`);'') = 1
   \<and> occurrences IMPORT_DECL
     (fix_business_sector_repo
       (''import a;'' @ NL @ ''import b;'' @ NL @ ''throw new Error(`a`);throw new Error(`b`);''))
   = 1\<close>
proof -
  let ?f = \<open>business_anchor @ NL @ ''throw new Error(`a`);'' @ NL @ ''throw new Error(`b`);''\<close>
  let ?g = \<open>''import a;'' @ NL @ ''import b;'' @ NL @ ''throw new Error(`a`);throw new Error(`b`);''\<close>
  have h: "\<not> sublist MARKER ?f \<and> occurrences business_anchor ?f \<le> 1" by code_simp
  have n: "occurrences business_anchor ?f = 1" by code_simp
  have k: "\<not> sublist MARKER ?g" by code_simp
  have l: \<open>list_ex (prefix ''import '') (str_split (CHR 0x0A) ?g)\<close> by code_simp
  have 1: "occurrences IMPORT_DECL (fix_business_repo ?f) = occurrences business_anchor ?f"
    using C3_declaration_once_after_the_anchor [of ?f] h by blast
  have \<open>occurrences IMPORT_DECL (fix_business_sector_repo ?g)
      = (if list_ex (prefix ''import '') (str_split (CHR 0x0A) ?g) then 1 else 0)\<close>
    using C3_declaration_once_after_the_anchor [of ?g] k by blast
  then have 2: "occurrences IMPORT_DECL (fix_business_sector_repo ?g) = 1"
    using l by (simp only: if_True)
  from 1 n 2 show ?thesis by blast
qed

end
